theory Spec2Isabelle
  imports Main "HOL-Library.Word"
begin

section \<open>FastParse: memory, views and the scanner\<close>

text \<open>
  The library works on raw pointers into a caller-supplied buffer. Memory is modelled as a
  finite image of bytes: an address is an index into the image, address 0 is the null
  pointer. Every load of the source that is guarded by a bounds test reads inside the image;
  a load outside the image (only the C library's number scanner can do one) yields NUL.
  \<open>size_t\<close> and \<open>uint64_t\<close> are 64-bit words, so their arithmetic wraps as on an
  LP64 platform.
\<close>

type_synonym memory = "char list"
type_synonym size_t = "64 word"

definition rd :: "memory \<Rightarrow> nat \<Rightarrow> char" where
  "rd mem a = (if a < length mem then mem ! a else CHR 0x00)"

definition bytes :: "memory \<Rightarrow> nat \<Rightarrow> nat \<Rightarrow> char list" where
  "bytes mem a n = map (rd mem) [a..<a + n]"

definition NULL :: nat where
  "NULL = 0"

record fp_view_t =
  data :: nat
  len :: size_t

datatype fp_error_t =
    FP_OK
  | FP_ERROR_EOF
  | FP_ERROR_INVALID_NUMBER
  | FP_ERROR_OVERFLOW
  | FP_ERROR_INVALID_ESCAPE
  | FP_ERROR_UNTERMINATED_STRING
  | FP_ERROR_CUSTOM

record fp_parser_t =
  start :: nat
  current :: nat
  endp :: nat
  line :: size_t
  column :: size_t
  error_code :: fp_error_t
  error_msg :: string

subsection \<open>String view operations\<close>

definition FP_VIEW_EMPTY :: fp_view_t where
  "FP_VIEW_EMPTY = \<lparr>data = NULL, len = 0\<rparr>"

text \<open>
  \<open>fp_view_substr\<close>: both the test \<open>start + len > view.len\<close> and the sum in it are
  computed in \<open>size_t\<close>.
\<close>

definition fp_view_substr :: "fp_view_t \<Rightarrow> size_t \<Rightarrow> size_t \<Rightarrow> fp_view_t" where
  "fp_view_substr view st ln =
     (if st \<ge> len view then FP_VIEW_EMPTY
      else let ln' = (if st + ln > len view then len view - st else ln)
           in \<lparr>data = data view + unat st, len = ln'\<rparr>)"

text \<open>
  \<open>memcmp\<close> compares the bytes as unsigned values and returns the difference of the first
  pair that differs, 0 when there is none.
\<close>

fun memcmp_bytes :: "char list \<Rightarrow> char list \<Rightarrow> int" where
  "memcmp_bytes (x # xs) (y # ys) =
     (if x = y then memcmp_bytes xs ys else of_char x - of_char y)"
| "memcmp_bytes _ _ = 0"

definition memcmp :: "memory \<Rightarrow> nat \<Rightarrow> nat \<Rightarrow> nat \<Rightarrow> int" where
  "memcmp mem s1 s2 n = memcmp_bytes (bytes mem s1 n) (bytes mem s2 n)"

definition fp_view_equals :: "memory \<Rightarrow> fp_view_t \<Rightarrow> fp_view_t \<Rightarrow> bool" where
  "fp_view_equals mem a b =
     (len a = len b \<and> memcmp mem (data a) (data b) (unat (len a)) = 0)"

definition fp_view_starts_with :: "memory \<Rightarrow> fp_view_t \<Rightarrow> fp_view_t \<Rightarrow> bool" where
  "fp_view_starts_with mem view prefix =
     (len view \<ge> len prefix \<and> memcmp mem (data view) (data prefix) (unat (len prefix)) = 0)"

definition fp_view_compare :: "memory \<Rightarrow> fp_view_t \<Rightarrow> fp_view_t \<Rightarrow> int" where
  "fp_view_compare mem a b =
     (let min_len = (if len a < len b then len a else len b);
          result = memcmp mem (data a) (data b) (unat min_len)
      in if result = 0 then (if len a < len b then - 1 else if len a > len b then 1 else 0)
         else result)"

subsection \<open>Parser initialization and state\<close>

definition fp_init :: "nat \<Rightarrow> size_t \<Rightarrow> fp_parser_t" where
  "fp_init input n =
     \<lparr>start = input, current = input, endp = input + unat n,
      line = 1, column = 1, error_code = FP_OK, error_msg = []\<rparr>"

definition fp_at_end :: "fp_parser_t \<Rightarrow> bool" where
  "fp_at_end p = (current p \<ge> endp p)"

text \<open>\<open>fp_remaining\<close>: the pointer difference \<open>end - current\<close>, converted to \<open>size_t\<close>.\<close>

definition fp_remaining :: "fp_parser_t \<Rightarrow> size_t" where
  "fp_remaining p = word_of_int (int (endp p) - int (current p))"

definition fp_peek :: "memory \<Rightarrow> fp_parser_t \<Rightarrow> char" where
  "fp_peek mem p = (if fp_at_end p then CHR 0x00 else rd mem (current p))"

definition fp_advance :: "memory \<Rightarrow> fp_parser_t \<Rightarrow> char \<times> fp_parser_t" where
  "fp_advance mem p =
     (if fp_at_end p then (CHR 0x00, p)
      else let c = rd mem (current p);
               p1 = p\<lparr>current := current p + 1\<rparr>
           in if c = CHR 0x0A then (c, p1\<lparr>line := line p1 + 1, column := 1\<rparr>)
              else (c, p1\<lparr>column := column p1 + 1\<rparr>))"

subsection \<open>Error handling\<close>

text \<open>
  \<open>fp_set_error\<close> writes the code and copies the message with \<open>strncpy\<close> into the
  256-byte array, whose last byte is then set to NUL: the array holds the message up to its
  terminator, cut after 255 bytes. No other field is written.
\<close>

definition fp_set_error :: "fp_parser_t \<Rightarrow> fp_error_t \<Rightarrow> string \<Rightarrow> fp_parser_t" where
  "fp_set_error p code msg =
     p\<lparr>error_code := code, error_msg := take 255 (takeWhile (\<lambda>c. c \<noteq> CHR 0x00) msg)\<rparr>"

definition fp_has_error :: "fp_parser_t \<Rightarrow> bool" where
  "fp_has_error p = (error_code p \<noteq> FP_OK)"

subsection \<open>Whitespace skipping\<close>

definition is_ws :: "char \<Rightarrow> bool" where
  "is_ws c = (c = CHR 0x20 \<or> c = CHR 0x09 \<or> c = CHR 0x0A \<or> c = CHR 0x0D)"

text \<open>
  The SSE2 operations on a 128-bit register, seen as 16 byte lanes, lowest address first.
\<close>

type_synonym m128i = "8 word list"

definition mm_loadu_si128 :: "memory \<Rightarrow> nat \<Rightarrow> m128i" where
  "mm_loadu_si128 mem p = map (\<lambda>c. of_char c) (bytes mem p 16)"

definition mm_set1_epi8 :: "char \<Rightarrow> m128i" where
  "mm_set1_epi8 c = replicate 16 (of_char c)"

definition mm_cmpeq_epi8 :: "m128i \<Rightarrow> m128i \<Rightarrow> m128i" where
  "mm_cmpeq_epi8 a b = map2 (\<lambda>x y. if x = y then 0xFF else 0x00) a b"

definition mm_or_si128 :: "m128i \<Rightarrow> m128i \<Rightarrow> m128i" where
  "mm_or_si128 a b = map2 (\<lambda>x y. or x y) a b"

fun mm_movemask_epi8 :: "m128i \<Rightarrow> nat" where
  "mm_movemask_epi8 [] = 0"
| "mm_movemask_epi8 (b # bs) = (if bit b 7 then 1 else 0) + 2 * mm_movemask_epi8 bs"

definition ws_mask :: "memory \<Rightarrow> nat \<Rightarrow> nat" where
  "ws_mask mem p =
     (let chunk = mm_loadu_si128 mem p;
          spaces = mm_cmpeq_epi8 chunk (mm_set1_epi8 (CHR 0x20));
          tabs = mm_cmpeq_epi8 chunk (mm_set1_epi8 (CHR 0x09));
          newlines = mm_cmpeq_epi8 chunk (mm_set1_epi8 (CHR 0x0A));
          returns = mm_cmpeq_epi8 chunk (mm_set1_epi8 (CHR 0x0D));
          whitespace = mm_or_si128 (mm_or_si128 spaces tabs) (mm_or_si128 newlines returns)
      in mm_movemask_epi8 whitespace)"

text \<open>
  The two loops of the skipper. Each returns the final pointer together with the addresses
  it loaded from, in order: a 16-byte load at \<open>p\<close> reads \<open>p, ..., p + 15\<close>; the scalar
  test reads \<open>*p\<close> only after \<open>p < end\<close> held.
\<close>

function simd_loop :: "memory \<Rightarrow> nat \<Rightarrow> nat \<Rightarrow> nat \<times> nat list" where
  "simd_loop mem p e =
     (if p + 16 \<le> e then
        (if ws_mask mem p \<noteq> 0xFFFF then (p, [p..<p + 16])
         else (case simd_loop mem (p + 16) e of (q, rs) \<Rightarrow> (q, [p..<p + 16] @ rs)))
      else (p, []))"
  by pat_completeness auto
termination
  by (relation "measure (\<lambda>(mem, p, e). e - p)") auto

function scalar_loop :: "memory \<Rightarrow> nat \<Rightarrow> nat \<Rightarrow> nat \<times> nat list" where
  "scalar_loop mem p e =
     (if p < e then
        (if is_ws (rd mem p) then (case scalar_loop mem (p + 1) e of (q, rs) \<Rightarrow> (q, p # rs))
         else (p, [p]))
      else (p, []))"
  by pat_completeness auto
termination
  by (relation "measure (\<lambda>(mem, p, e). e - p)") auto

definition fp_skip_whitespace_simd :: "memory \<Rightarrow> nat \<Rightarrow> nat \<Rightarrow> nat \<times> nat list" where
  "fp_skip_whitespace_simd mem str e =
     (case simd_loop mem str e of (p, rs1) \<Rightarrow>
        (case scalar_loop mem p e of (q, rs2) \<Rightarrow> (q, rs1 @ rs2)))"

text \<open>
  \<open>fp_skip_whitespace\<close> is one of the two paths, chosen when the library is compiled
  (\<open>FASTPARSE_SIMD_ENABLED\<close>); the flag is the first argument here and of every function
  that skips whitespace.
\<close>

definition fp_skip_whitespace :: "bool \<Rightarrow> memory \<Rightarrow> nat \<Rightarrow> nat \<Rightarrow> nat \<times> nat list" where
  "fp_skip_whitespace simd mem str e =
     (if simd then fp_skip_whitespace_simd mem str e else scalar_loop mem str e)"

function track_loop :: "memory \<Rightarrow> nat \<Rightarrow> fp_parser_t \<Rightarrow> fp_parser_t" where
  "track_loop mem new_pos p =
     (if current p < new_pos then
        track_loop mem new_pos
          ((if rd mem (current p) = CHR 0x0A then p\<lparr>line := line p + 1, column := 1\<rparr>
            else p\<lparr>column := column p + 1\<rparr>)\<lparr>current := current p + 1\<rparr>)
      else p)"
  by pat_completeness auto
termination
  by (relation "measure (\<lambda>(mem, new_pos, p). new_pos - current p)") auto

definition fp_skip_ws :: "bool \<Rightarrow> memory \<Rightarrow> fp_parser_t \<Rightarrow> fp_parser_t" where
  "fp_skip_ws simd mem p =
     (let new_pos = fst (fp_skip_whitespace simd mem (current p) (endp p))
      in track_loop mem new_pos p)"

subsection \<open>Matching\<close>

definition fp_match_char :: "memory \<Rightarrow> fp_parser_t \<Rightarrow> char \<Rightarrow> bool \<times> fp_parser_t" where
  "fp_match_char mem p expected =
     (if fp_peek mem p = expected then (True, snd (fp_advance mem p)) else (False, p))"

definition fp_match_str :: "memory \<Rightarrow> fp_parser_t \<Rightarrow> fp_view_t \<Rightarrow> bool \<times> fp_parser_t" where
  "fp_match_str mem p expected =
     (if fp_remaining p \<ge> len expected \<and>
         memcmp mem (current p) (data expected) (unat (len expected)) = 0
      then (True, p\<lparr>current := current p + unat (len expected),
                     column := column p + len expected\<rparr>)
      else (False, p))"

subsection \<open>Number parsing\<close>

definition isdigit :: "char \<Rightarrow> bool" where
  "isdigit c = ((48::nat) \<le> of_char c \<and> of_char c \<le> (57::nat))"

definition INT64_MAX :: "64 word" where
  "INT64_MAX = 0x7FFFFFFFFFFFFFFF"

text \<open>
  The digit loop of \<open>fp_parse_int64\<close>. \<open>value\<close>, \<open>digit\<close> and \<open>max_val\<close> are
  \<open>uint64_t\<close>; the loop leaves with \<open>None\<close> where the source sets the overflow error and
  returns false.
\<close>

function int64_loop ::
  "memory \<Rightarrow> 64 word \<Rightarrow> 64 word \<Rightarrow> fp_parser_t \<Rightarrow> 64 word option \<times> fp_parser_t" where
  "int64_loop mem max_val val p =
     (if \<not> fp_at_end p \<and> isdigit (fp_peek mem p) then
        (let digit = of_char (fp_peek mem p) - of_char (CHR ''0'') in
         if val > (max_val - digit) div 10
         then (None, fp_set_error p FP_ERROR_OVERFLOW ''Integer overflow'')
         else int64_loop mem max_val (val * 10 + digit) (snd (fp_advance mem p)))
      else (Some val, p))"
  by pat_completeness auto
termination
  by (relation "measure (\<lambda>(mem, max_val, val, p). endp p - current p)")
    (auto simp: fp_advance_def fp_at_end_def Let_def)

text \<open>
  The result is an \<open>int64_t\<close>, kept as the 64-bit word of its two's complement form
  (\<open>sint\<close> reads it); the conversion from \<open>uint64_t\<close> and the negation wrap.
\<close>

definition fp_parse_int64 ::
  "bool \<Rightarrow> memory \<Rightarrow> fp_parser_t \<Rightarrow> 64 word option \<times> fp_parser_t" where
  "fp_parse_int64 simd mem p0 =
     (let p = fp_skip_ws simd mem p0 in
      if fp_at_end p then (None, fp_set_error p FP_ERROR_EOF ''Expected number'')
      else
        let (negative, p1) =
              (if fp_peek mem p = CHR ''-'' then (True, snd (fp_advance mem p))
               else if fp_peek mem p = CHR ''+'' then (False, snd (fp_advance mem p))
               else (False, p))
        in if \<not> isdigit (fp_peek mem p1)
           then (None, fp_set_error p1 FP_ERROR_INVALID_NUMBER ''Expected digit'')
           else
             let max_val = (if negative then INT64_MAX + 1 else INT64_MAX) in
             case int64_loop mem max_val 0 p1 of
               (None, p2) \<Rightarrow> (None, p2)
             | (Some val, p2) \<Rightarrow> (Some (if negative then - val else val), p2))"

text \<open>
  \<open>fp_parse_double\<close> hands the current pointer to \<open>strtod\<close> of the C library, which is
  not part of the repository: it is a parameter, the function from the memory and the start
  pointer to the end pointer it reports (never before the start pointer). The floating-point
  value is not modelled.
\<close>

definition fp_parse_double ::
  "(memory \<Rightarrow> nat \<Rightarrow> nat) \<Rightarrow> bool \<Rightarrow> memory \<Rightarrow> fp_parser_t \<Rightarrow> bool \<times> fp_parser_t" where
  "fp_parse_double strtod simd mem p0 =
     (let p = fp_skip_ws simd mem p0;
          st = current p;
          end_ptr = strtod mem st
      in if end_ptr = st then (False, fp_set_error p FP_ERROR_INVALID_NUMBER ''Expected number'')
         else let consumed = end_ptr - st
              in (True, p\<lparr>current := current p + consumed,
                           column := column p + of_nat consumed\<rparr>))"

subsection \<open>Quoted strings\<close>

function quoted_loop :: "memory \<Rightarrow> fp_parser_t \<Rightarrow> fp_parser_t" where
  "quoted_loop mem p =
     (if \<not> fp_at_end p \<and> fp_peek mem p \<noteq> CHR 0x22 then
        (if fp_peek mem p = CHR 0x5C then
           (let p1 = snd (fp_advance mem p) in
            if fp_at_end p1 then p1 else quoted_loop mem (snd (fp_advance mem p1)))
         else quoted_loop mem (snd (fp_advance mem p)))
      else p)"
  by pat_completeness auto
termination
  by (relation "measure (\<lambda>(mem, p). endp p - current p)")
    (auto simp: fp_advance_def fp_at_end_def Let_def)

definition fp_parse_quoted_string ::
  "bool \<Rightarrow> memory \<Rightarrow> fp_parser_t \<Rightarrow> fp_view_t option \<times> fp_parser_t" where
  "fp_parse_quoted_string simd mem p0 =
     (let p = fp_skip_ws simd mem p0 in
      case fp_match_char mem p (CHR 0x22) of
        (False, p1) \<Rightarrow> (None, fp_set_error p1 FP_ERROR_UNTERMINATED_STRING ''Expected opening quote'')
      | (True, p1) \<Rightarrow>
          let st = current p1;
              p2 = quoted_loop mem p1
          in case fp_match_char mem p2 (CHR 0x22) of
               (False, p3) \<Rightarrow>
                 (None, fp_set_error p3 FP_ERROR_UNTERMINATED_STRING ''Expected closing quote'')
             | (True, p3) \<Rightarrow>
                 (Some \<lparr>data = st, len = word_of_int (int (current p3) - int st - 1)\<rparr>, p3))"

subsection \<open>CSV\<close>

function bare_loop :: "memory \<Rightarrow> fp_parser_t \<Rightarrow> fp_parser_t" where
  "bare_loop mem p =
     (if \<not> fp_at_end p \<and> fp_peek mem p \<noteq> CHR '','' \<and> fp_peek mem p \<noteq> CHR 0x0A
         \<and> fp_peek mem p \<noteq> CHR 0x0D
      then bare_loop mem (snd (fp_advance mem p))
      else p)"
  by pat_completeness auto
termination
  by (relation "measure (\<lambda>(mem, p). endp p - current p)")
    (auto simp: fp_advance_def fp_at_end_def Let_def)

function trim_loop :: "memory \<Rightarrow> nat \<Rightarrow> nat \<Rightarrow> nat" where
  "trim_loop mem st e =
     (if e > st \<and> (rd mem (e - 1) = CHR 0x20 \<or> rd mem (e - 1) = CHR 0x09)
      then trim_loop mem st (e - 1)
      else e)"
  by pat_completeness auto
termination
  by (relation "measure (\<lambda>(mem, st, e). e)") auto

definition fp_parse_csv_field ::
  "bool \<Rightarrow> memory \<Rightarrow> fp_parser_t \<Rightarrow> fp_view_t option \<times> fp_parser_t" where
  "fp_parse_csv_field simd mem p0 =
     (let p = fp_skip_ws simd mem p0 in
      if fp_at_end p then (None, p)
      else if fp_peek mem p = CHR 0x22 then fp_parse_quoted_string simd mem p
      else
        let st = current p;
            p1 = bare_loop mem p;
            e = trim_loop mem st (current p1)
        in (Some \<lparr>data = st, len = of_nat (e - st)\<rparr>, p1))"

definition FP_CSV_MAX_FIELDS :: nat where
  "FP_CSV_MAX_FIELDS = 64"

text \<open>
  The field loop of \<open>fp_parse_csv_line\<close>. The caller's array is represented by the list
  of the entries written so far, \<open>fields[0]\<close> to \<open>fields[count - 1]\<close>.
\<close>

function csv_fields_loop ::
  "bool \<Rightarrow> memory \<Rightarrow> nat \<Rightarrow> fp_view_t list \<Rightarrow> fp_parser_t \<Rightarrow> nat \<times> fp_view_t list \<times> fp_parser_t"
  where
  "csv_fields_loop simd mem count fs p =
     (if \<not> fp_at_end p \<and> count < FP_CSV_MAX_FIELDS then
        (case fp_parse_csv_field simd mem p of
           (None, p1) \<Rightarrow> (count, fs, p1)
         | (Some f, p1) \<Rightarrow>
             (case fp_match_char mem p1 (CHR '','') of
                (False, p2) \<Rightarrow> (count + 1, fs @ [f], p2)
              | (True, p2) \<Rightarrow> csv_fields_loop simd mem (count + 1) (fs @ [f]) p2))
      else (count, fs, p))"
  by pat_completeness auto
termination
  by (relation "measure (\<lambda>(simd, mem, count, fs, p). FP_CSV_MAX_FIELDS - count)") auto

definition fp_parse_csv_line ::
  "bool \<Rightarrow> memory \<Rightarrow> fp_parser_t \<Rightarrow> nat \<times> fp_view_t list \<times> fp_parser_t" where
  "fp_parse_csv_line simd mem p =
     (case csv_fields_loop simd mem 0 [] p of
        (count, fs, p1) \<Rightarrow>
          (case fp_match_char mem p1 (CHR 0x0D) of
             (True, p2) \<Rightarrow> (count, fs, snd (fp_match_char mem p2 (CHR 0x0A)))
           | (False, p2) \<Rightarrow> (count, fs, snd (fp_match_char mem p2 (CHR 0x0A)))))"

subsection \<open>Chainable combinators\<close>

text \<open>
  A chain holds a pointer to the parser; a step takes the chain by value and may write the
  parser through the pointer. A step is modelled on the pair of the parser pointed to and
  the chain's own fields, and returns both.
\<close>

record fp_chain_t =
  success :: bool
  result :: fp_view_t

definition fp_chain :: "fp_parser_t \<Rightarrow> fp_parser_t \<times> fp_chain_t" where
  "fp_chain p = (p, \<lparr>success = True, result = FP_VIEW_EMPTY\<rparr>)"

definition fp_then_skip_ws :: "bool \<Rightarrow> memory \<Rightarrow> fp_parser_t \<times> fp_chain_t \<Rightarrow> fp_parser_t \<times> fp_chain_t"
  where
  "fp_then_skip_ws simd mem pc =
     (case pc of (p, chain) \<Rightarrow>
        if success chain then (fp_skip_ws simd mem p, chain) else (p, chain))"

text \<open>The message \<open>Expected '%c'\<close> that \<open>snprintf\<close> formats into a 64-byte array.\<close>

definition expected_msg :: "char \<Rightarrow> string" where
  "expected_msg c = take 63 (''Expected '' @ [CHR 0x27, c, CHR 0x27])"

definition fp_then_expect_char ::
  "memory \<Rightarrow> fp_parser_t \<times> fp_chain_t \<Rightarrow> char \<Rightarrow> fp_parser_t \<times> fp_chain_t" where
  "fp_then_expect_char mem pc expected =
     (case pc of (p, chain) \<Rightarrow>
        if success chain then
          (case fp_match_char mem p expected of
             (True, p1) \<Rightarrow> (p1, chain\<lparr>success := True\<rparr>)
           | (False, p1) \<Rightarrow>
               (fp_set_error p1 FP_ERROR_CUSTOM (expected_msg expected), chain\<lparr>success := False\<rparr>))
        else (p, chain))"

definition fp_then_parse_string ::
  "bool \<Rightarrow> memory \<Rightarrow> fp_parser_t \<times> fp_chain_t \<Rightarrow> fp_parser_t \<times> fp_chain_t" where
  "fp_then_parse_string simd mem pc =
     (case pc of (p, chain) \<Rightarrow>
        if success chain then
          (case fp_parse_quoted_string simd mem p of
             (Some v, p1) \<Rightarrow> (p1, chain\<lparr>success := True, result := v\<rparr>)
           | (None, p1) \<Rightarrow> (p1, chain\<lparr>success := False\<rparr>))
        else (p, chain))"

subsection \<open>Decimal text of an integer\<close>

text \<open>
  The reference side of the round trip: the decimal text form of an integer, as
  \<open>printf("%lld")\<close> writes it (a minus sign for negative numbers, no leading zeros), and
  the value of a string of decimal digits read from the left, starting from \<open>v\<close>.
\<close>

definition digit_char :: "nat \<Rightarrow> char" where
  "digit_char d = char_of (48 + d)"

fun dec_digits :: "nat \<Rightarrow> string" where
  "dec_digits n = (if n < 10 then [digit_char n] else dec_digits (n div 10) @ [digit_char (n mod 10)])"

definition decimal_text :: "int \<Rightarrow> string" where
  "decimal_text n = (if n < 0 then CHR ''-'' # dec_digits (nat (- n)) else dec_digits (nat n))"

definition digits_val :: "nat \<Rightarrow> string \<Rightarrow> nat" where
  "digits_val v ds = foldl (\<lambda>a c. a * 10 + (of_char c - 48)) v ds"

subsection \<open>Reference definitions for the scanner\<close>

text \<open>
  \<open>scan_quoted\<close> follows the specification of the scan inside a quoted string: a
  backslash causes the following byte, whatever it is, to be passed over; the scan stops at
  an unescaped quote or at the end of the input. Its value is the number of bytes passed.
  \<open>input\<close> is the unread part of the buffer, from \<open>current\<close> to \<open>end\<close>, and
  \<open>frame\<close> relates two scanner states that agree on the buffer bounds and the error slot.
\<close>

fun scan_quoted :: "string \<Rightarrow> nat" where
  "scan_quoted [] = 0"
| "scan_quoted (c # cs) =
     (if c = CHR 0x22 then 0
      else if c = CHR 0x5C then (case cs of [] \<Rightarrow> 1 | d # ds \<Rightarrow> 2 + scan_quoted ds)
      else 1 + scan_quoted cs)"

definition input :: "memory \<Rightarrow> fp_parser_t \<Rightarrow> string" where
  "input mem p = bytes mem (current p) (endp p - current p)"

definition frame :: "fp_parser_t \<Rightarrow> fp_parser_t \<Rightarrow> bool" where
  "frame p p' \<longleftrightarrow> start p' = start p \<and> endp p' = endp p \<and>
     error_code p' = error_code p \<and> error_msg p' = error_msg p"

text \<open>
  \<open>bare_char\<close> is the condition under which the loop of a bare CSV field goes on;
  \<open>advanced\<close> relates a scanner state to a later one on the same buffer, and
  \<open>within\<close> is the invariant of the cursor.
\<close>

definition bare_char :: "char \<Rightarrow> bool" where
  "bare_char c = (c \<noteq> CHR '','' \<and> c \<noteq> CHR 0x0A \<and> c \<noteq> CHR 0x0D)"

definition advanced :: "fp_parser_t \<Rightarrow> fp_parser_t \<Rightarrow> bool" where
  "advanced p p' \<longleftrightarrow> start p' = start p \<and> endp p' = endp p \<and> current p \<le> current p'"

definition within :: "fp_parser_t \<Rightarrow> bool" where
  "within p \<longleftrightarrow> start p \<le> current p \<and> current p \<le> endp p"

text \<open>
  The driver of the CSV example in the README: \<open>fp_parse_csv_line\<close> is called until
  \<open>fp_at_end\<close> holds. The model returns the field count of every call, in order.
\<close>

function csv_rows :: "bool \<Rightarrow> memory \<Rightarrow> fp_parser_t \<Rightarrow> nat list" where
  "csv_rows simd mem p =
     (if fp_at_end p then []
      else (case fp_parse_csv_line simd mem p of
              (count, fs, p') \<Rightarrow> count # csv_rows simd mem p'))"
  by pat_completeness auto

subsection \<open>The number scanner of the C library\<close>

text \<open>
  Modelled from the spec: \<open>strtod\<close>, "the platform's locale-independent decimal-parsing
  routine" to which \<open>fp_parse_double\<close> delegates, belongs to the C library and not to the
  repository. \<open>strtod_decimal\<close> gives the end pointer it reports for the decimal forms:
  optional white space, an optional sign, digits with an optional point (at least one digit),
  and an optional exponent; the start pointer when there is no such number. It looks at the
  bytes from the start pointer on and knows nothing of the scanner's \<open>end\<close>.
\<close>

definition isspace :: "char \<Rightarrow> bool" where
  "isspace c = (c = CHR 0x20 \<or> c = CHR 0x09 \<or> c = CHR 0x0A \<or> c = CHR 0x0B \<or> c = CHR 0x0C
     \<or> c = CHR 0x0D)"

function skip_space :: "memory \<Rightarrow> nat \<Rightarrow> nat" where
  "skip_space mem a = (if isspace (rd mem a) then skip_space mem (a + 1) else a)"
  by pat_completeness auto
termination
  by (relation "measure (\<lambda>(mem, a). length mem - a)")
    (auto simp: rd_def isspace_def split: if_splits)

function scan_digits :: "memory \<Rightarrow> nat \<Rightarrow> nat" where
  "scan_digits mem a = (if isdigit (rd mem a) then scan_digits mem (a + 1) else a)"
  by pat_completeness auto
termination
  by (relation "measure (\<lambda>(mem, a). length mem - a)")
    (auto simp: rd_def isdigit_def split: if_splits)

definition strtod_decimal :: "memory \<Rightarrow> nat \<Rightarrow> nat" where
  "strtod_decimal mem nptr =
     (let s = skip_space mem nptr;
          s1 = (if rd mem s = CHR ''+'' \<or> rd mem s = CHR ''-'' then s + 1 else s);
          i = scan_digits mem s1;
          m = (if rd mem i = CHR ''.'' then scan_digits mem (i + 1) else i)
      in if (if rd mem i = CHR ''.'' then i = s1 \<and> m = i + 1 else i = s1) then nptr
         else if rd mem m = CHR ''e'' \<or> rd mem m = CHR ''E'' then
           (let e1 = (if rd mem (m + 1) = CHR ''+'' \<or> rd mem (m + 1) = CHR ''-'' then m + 2 else m + 1);
                e2 = scan_digits mem e1
            in if e2 = e1 then m else e2)
         else m)"

declare skip_space.simps [simp del] scan_digits.simps [simp del]

subsection \<open>CSV text and the reference row count\<close>

text \<open>
  The inputs for which the row count is stated. A field is bare (no comma, line terminator
  or quote in it) or quoted (a body in which the scan of a quoted string ends at the closing
  quote); a row is one to \<open>FP_CSV_MAX_FIELDS\<close> fields whose last field is not a bare field
  of whitespace only; a row ends with LF or CR LF, the last row possibly with nothing.

  \<open>ref_row_count\<close> follows the specification's reference: the input is split at every
  newline that is not inside a quoted field (in which a backslash escapes the next byte);
  bytes after the last newline make a row of their own.
\<close>

datatype csv_field = Bare string | Quoted string

fun render_field :: "csv_field \<Rightarrow> string" where
  "render_field (Bare s) = s"
| "render_field (Quoted b) = CHR 0x22 # b @ [CHR 0x22]"

fun field_ok :: "csv_field \<Rightarrow> bool" where
  "field_ok (Bare s) = (\<forall>c \<in> set s. bare_char c \<and> c \<noteq> CHR 0x22)"
| "field_ok (Quoted b) = (scan_quoted (b @ [CHR 0x22]) = length b)"

fun blank_field :: "csv_field \<Rightarrow> bool" where
  "blank_field (Bare s) = (\<forall>c \<in> set s. is_ws c)"
| "blank_field (Quoted b) = False"

fun render_fields :: "csv_field list \<Rightarrow> string" where
  "render_fields [] = []"
| "render_fields [f] = render_field f"
| "render_fields (f # g # fs) = render_field f @ CHR '','' # render_fields (g # fs)"

definition row_ok :: "csv_field list \<Rightarrow> bool" where
  "row_ok fs \<longleftrightarrow> fs \<noteq> [] \<and> length fs \<le> FP_CSV_MAX_FIELDS \<and> (\<forall>f \<in> set fs. field_ok f)
     \<and> \<not> blank_field (last fs)"

fun csv_ok :: "(csv_field list \<times> string) list \<Rightarrow> bool" where
  "csv_ok [] = True"
| "csv_ok [(fs, t)] = (row_ok fs \<and> (t = [] \<or> t = [CHR 0x0A] \<or> t = [CHR 0x0D, CHR 0x0A]))"
| "csv_ok ((fs, t) # r # rs) =
     (row_ok fs \<and> (t = [CHR 0x0A] \<or> t = [CHR 0x0D, CHR 0x0A]) \<and> csv_ok (r # rs))"

fun render_csv :: "(csv_field list \<times> string) list \<Rightarrow> string" where
  "render_csv [] = []"
| "render_csv ((fs, t) # rs) = render_fields fs @ t @ render_csv rs"

fun ref_row_count :: "bool \<Rightarrow> bool \<Rightarrow> string \<Rightarrow> nat" where
  "ref_row_count q opn [] = (if opn then 1 else 0)"
| "ref_row_count q opn (c # cs) =
     (if q then
        (if c = CHR 0x5C then (case cs of [] \<Rightarrow> 1 | d # ds \<Rightarrow> ref_row_count True True ds)
         else if c = CHR 0x22 then ref_row_count False True cs
         else ref_row_count True True cs)
      else if c = CHR 0x22 then ref_row_count True True cs
      else if c = CHR 0x0A then 1 + ref_row_count False False cs
      else ref_row_count False True cs)"

definition ref_rows :: "string \<Rightarrow> nat" where
  "ref_rows s = ref_row_count False False s"

declare dec_digits.simps [simp del]

declare simd_loop.simps [simp del] scalar_loop.simps [simp del] track_loop.simps [simp del]
  int64_loop.simps [simp del] quoted_loop.simps [simp del] bare_loop.simps [simp del]
  trim_loop.simps [simp del] csv_fields_loop.simps [simp del]

section \<open>Properties of the view operations\<close>

lemma memcmp_bytes_refl: "memcmp_bytes xs xs = 0"
  by (induction xs) simp_all

lemma memcmp_refl: "memcmp mem s s n = 0"
  by (simp add: memcmp_def memcmp_bytes_refl)

lemma memcmp_bytes_zero_iff:
  "length xs = length ys \<Longrightarrow> memcmp_bytes xs ys = 0 \<longleftrightarrow> xs = ys"
proof (induction xs ys rule: list_induct2')
  case (4 x xs y ys)
  have "x \<noteq> y \<Longrightarrow> (of_char x :: int) \<noteq> of_char y"
    by (metis char_of_char)
  with 4 show ?case by auto
qed simp_all

text \<open>
  Claim C9. A view equals itself, and two views compare as 0 exactly when they are equal:
  \<open>fp_view_equals(v, v)\<close> is true for every view, and \<open>fp_view_compare(a, b) == 0\<close>
  holds if and only if \<open>fp_view_equals(a, b)\<close> does.
\<close>

theorem fp_view_compare_zero_iff_equals:
  "fp_view_equals mem v v \<and>
   (fp_view_compare mem a b = 0 \<longleftrightarrow> fp_view_equals mem a b)"
proof
  show "fp_view_equals mem v v"
    by (simp add: fp_view_equals_def memcmp_refl)
next
  show "fp_view_compare mem a b = 0 \<longleftrightarrow> fp_view_equals mem a b"
  proof (cases "len a = len b")
    case True
    then show ?thesis
      by (simp add: fp_view_compare_def fp_view_equals_def Let_def)
  next
    case False
    then have "len a < len b \<or> len b < len a"
      by auto
    with False show ?thesis
      by (auto simp: fp_view_compare_def fp_view_equals_def Let_def)
  qed
qed


lemma fp_view_substr_in_range:
  assumes "unat st + unat ln < 2 ^ 64"
  shows "fp_view_substr v st ln =
     (if st \<ge> len v then FP_VIEW_EMPTY
      else \<lparr>data = data v + unat st, len = of_nat (min (unat ln) (unat (len v) - unat st))\<rparr>)"
proof -
  from assms have s: "unat (st + ln) = unat st + unat ln"
    by (simp add: unat_add_lem [THEN iffD1])
  show ?thesis
  proof (cases "st \<ge> len v")
    case True
    then show ?thesis by (simp add: fp_view_substr_def)
  next
    case False
    then have lt: "unat st < unat (len v)" by (simp add: word_less_nat_alt not_le)
    show ?thesis
    proof (cases "st + ln > len v")
      case True
      then have "unat (len v) < unat st + unat ln" using s by (simp add: word_less_nat_alt)
      then have "min (unat ln) (unat (len v) - unat st) = unat (len v) - unat st" by simp
      moreover have "of_nat (unat (len v) - unat st) = len v - st"
        using lt by (simp add: of_nat_diff)
      ultimately show ?thesis using False True by (simp add: fp_view_substr_def Let_def)
    next
      case fits: False
      then have "unat st + unat ln \<le> unat (len v)" using s by (simp add: word_less_nat_alt not_less)
      then have "min (unat ln) (unat (len v) - unat st) = unat ln" by simp
      then show ?thesis using False fits by (simp add: fp_view_substr_def Let_def)
    qed
  qed
qed

text \<open>
  Claim C3. \<open>fp_view_substr(v, offset, length)\<close> is to return a view inside \<open>v\<close>, of length
  \<open>min(length, v.len - offset)\<close>, also when \<open>offset + length\<close> overflows \<open>size_t\<close>.
  On a view of 5 bytes with offset 1 and length \<open>SIZE_MAX\<close> the sum wraps to 0, the clamp
  is skipped, and the returned view starts at byte 1 with length \<open>SIZE_MAX\<close>.
\<close>

theorem fp_view_substr_wraps:
  "fp_view_substr \<lparr>data = 100, len = 5\<rparr> 1 0xFFFFFFFFFFFFFFFF =
     \<lparr>data = 101, len = 0xFFFFFFFFFFFFFFFF\<rparr>"
  by (simp add: fp_view_substr_def Let_def word_le_nat_alt word_less_nat_alt)

section \<open>The error slot\<close>

text \<open>
  Claim C7, as stated: the error record that \<open>fp_set_error\<close> stores includes the line and
  column of the cursor at the time of the call, so that a later inspection reports the
  failure position. It does not: two scanners on different lines store the same record, and
  the line read after a further \<open>fp_advance\<close> is that of the moved cursor.
\<close>

theorem fp_set_error_position_counterexample:
  "error_code (fp_set_error (fp_init 0 2) FP_ERROR_EOF ''Expected number'') =
   error_code (fp_set_error (snd (fp_advance [CHR 0x0A, CHR ''x''] (fp_init 0 2)))
     FP_ERROR_EOF ''Expected number'')
   \<and> error_msg (fp_set_error (fp_init 0 2) FP_ERROR_EOF ''Expected number'') =
   error_msg (fp_set_error (snd (fp_advance [CHR 0x0A, CHR ''x''] (fp_init 0 2)))
     FP_ERROR_EOF ''Expected number'')
   \<and> line (fp_init 0 2) = 1
   \<and> line (snd (fp_advance [CHR 0x0A, CHR ''x''] (fp_init 0 2))) = 2
   \<and> line (snd (fp_advance [CHR 0x0A, CHR ''x'']
        (fp_set_error (fp_init 0 2) FP_ERROR_EOF ''Expected number''))) = 2"
  by (simp add: fp_set_error_def fp_init_def fp_advance_def fp_at_end_def rd_def Let_def)

text \<open>
  Claim C7, amended: \<open>fp_set_error\<close> stores the code and the message (up to its
  terminator, at most 255 bytes) and nothing else; it leaves the cursor, the line and the
  column as they are, so the scanner's own line and column, read before the cursor moves
  again, are those of the failure.
\<close>

theorem fp_set_error_keeps_position:
  "line (fp_set_error p code msg) = line p \<and>
   column (fp_set_error p code msg) = column p \<and>
   current (fp_set_error p code msg) = current p \<and>
   start (fp_set_error p code msg) = start p \<and>
   endp (fp_set_error p code msg) = endp p \<and>
   error_code (fp_set_error p code msg) = code \<and>
   error_msg (fp_set_error p code msg) = take 255 (takeWhile (\<lambda>c. c \<noteq> CHR 0x00) msg)"
  by (simp add: fp_set_error_def)

section \<open>Chains\<close>

text \<open>
  Claim C8. A step applied to a chain whose success flag is false returns the chain
  unchanged: the scanner is not written, success stays false and the result view is kept.
\<close>

theorem chain_failed_step_noop:
  "\<not> success chain \<Longrightarrow>
   fp_then_skip_ws simd mem (p, chain) = (p, chain) \<and>
   fp_then_expect_char mem (p, chain) c = (p, chain) \<and>
   fp_then_parse_string simd mem (p, chain) = (p, chain)"
  by (simp add: fp_then_skip_ws_def fp_then_expect_char_def fp_then_parse_string_def)

theorem chain_failed_step_noop_witness:
  "\<not> success \<lparr>success = False, result = \<lparr>data = 3, len = 2\<rparr>\<rparr> \<and>
   fp_then_skip_ws True ''  ab'' (fp_init 0 4, \<lparr>success = False, result = \<lparr>data = 3, len = 2\<rparr>\<rparr>)
     = (fp_init 0 4, \<lparr>success = False, result = \<lparr>data = 3, len = 2\<rparr>\<rparr>) \<and>
   fp_then_expect_char ''  ab'' (fp_init 0 4, \<lparr>success = False, result = \<lparr>data = 3, len = 2\<rparr>\<rparr>) (CHR 0x20)
     = (fp_init 0 4, \<lparr>success = False, result = \<lparr>data = 3, len = 2\<rparr>\<rparr>) \<and>
   fp_then_parse_string True ''  ab'' (fp_init 0 4, \<lparr>success = False, result = \<lparr>data = 3, len = 2\<rparr>\<rparr>)
     = (fp_init 0 4, \<lparr>success = False, result = \<lparr>data = 3, len = 2\<rparr>\<rparr>)"
  using chain_failed_step_noop [of "\<lparr>success = False, result = \<lparr>data = 3, len = 2\<rparr>\<rparr>"
      True "''  ab''" "fp_init 0 4" "CHR 0x20"]
  by simp

section \<open>Whitespace skipping: the two paths agree\<close>

lemma movemask_le: "mm_movemask_epi8 bs + 1 \<le> 2 ^ length bs"
  by (induction bs) auto

lemma movemask_full_iff:
  "mm_movemask_epi8 bs + 1 = 2 ^ length bs \<longleftrightarrow> (\<forall>b \<in> set bs. bit b 7)"
proof (induction bs)
  case Nil
  show ?case by simp
next
  case (Cons b bs)
  have le: "mm_movemask_epi8 bs + 1 \<le> 2 ^ length bs" by (rule movemask_le)
  show ?case
  proof (cases "bit b 7")
    case True
    then show ?thesis using Cons le by auto
  next
    case False
    then show ?thesis using le by auto
  qed
qed

lemma of_char_nat_less: "(of_char c :: nat) < 256"
proof -
  have "(of_char c :: nat) mod 256 = of_char c" by (rule of_char_mod_256)
  moreover have "(of_char c :: nat) mod 256 < 256" by simp
  ultimately show ?thesis by simp
qed

lemma unat_of_char8: "unat (of_char c :: 8 word) = of_char c"
proof -
  have "(of_char c :: 8 word) = of_nat (of_char c)" by (simp add: of_nat_of_char)
  moreover have "unat (of_nat (of_char c :: nat) :: 8 word) = of_char c"
    using of_char_nat_less [of c] by (simp add: unat_of_nat)
  ultimately show ?thesis by simp
qed

lemma unat_of_char64: "unat (of_char c :: 64 word) = of_char c"
proof -
  have "(of_char c :: 64 word) = of_nat (of_char c)" by (simp add: of_nat_of_char)
  moreover have "(of_char c :: nat) < 2 ^ 64"
    by (rule less_trans [OF of_char_nat_less]) simp
  then have "(of_char c :: nat) mod 2 ^ 64 = of_char c"
    by (rule mod_less)
  then have "unat (of_nat (of_char c :: nat) :: 64 word) = of_char c"
    by (simp add: unat_of_nat)
  ultimately show ?thesis by simp
qed

lemma of_char_eq_iff8: "(of_char c :: 8 word) = of_char d \<longleftrightarrow> c = d"
proof
  assume "(of_char c :: 8 word) = of_char d"
  then have "unat (of_char c :: 8 word) = unat (of_char d :: 8 word)" by simp
  then show "c = d" by (simp only: unat_of_char8 of_char_eq_iff)
qed simp

definition ws_lane :: "char \<Rightarrow> 8 word" where
  "ws_lane c =
     or (or (if (of_char c :: 8 word) = of_char (CHR 0x20) then 0xFF else 0)
            (if (of_char c :: 8 word) = of_char (CHR 0x09) then 0xFF else 0))
        (or (if (of_char c :: 8 word) = of_char (CHR 0x0A) then 0xFF else 0)
            (if (of_char c :: 8 word) = of_char (CHR 0x0D) then 0xFF else 0))"

lemma ws_lane_bit: "bit (ws_lane c) 7 \<longleftrightarrow> is_ws c"
  unfolding ws_lane_def of_char_eq_iff8 is_ws_def
  by (simp add: bit_or_iff)

lemma map2_replicate:
  "length xs = n \<Longrightarrow> map2 f xs (replicate n y) = map (\<lambda>x. f x y) xs"
  by (induction xs arbitrary: n) auto

lemma map2_map_map: "map2 f (map g xs) (map h xs) = map (\<lambda>x. f (g x) (h x)) xs"
  by (induction xs) auto

lemma length_bytes [simp]: "length (bytes mem a n) = n"
  by (simp add: bytes_def)

lemma ws_mask_lanes: "ws_mask mem p = mm_movemask_epi8 (map ws_lane (bytes mem p 16))"
proof -
  have eq: "\<And>d. mm_cmpeq_epi8 (mm_loadu_si128 mem p) (mm_set1_epi8 d) =
      map (\<lambda>c. if (of_char c :: 8 word) = of_char d then 0xFF else 0) (bytes mem p 16)"
    unfolding mm_cmpeq_epi8_def mm_loadu_si128_def mm_set1_epi8_def
    by (subst map2_replicate) (simp_all only: length_map length_bytes map_map comp_def)
  show ?thesis
    unfolding ws_mask_def Let_def eq mm_or_si128_def map2_map_map ws_lane_def ..
qed

lemma ws_mask_full_iff:
  "ws_mask mem p = 0xFFFF \<longleftrightarrow> (\<forall>a \<in> {p..<p + 16}. is_ws (rd mem a))"
proof -
  have "ws_mask mem p = 0xFFFF \<longleftrightarrow>
        mm_movemask_epi8 (map ws_lane (bytes mem p 16)) + 1 = 2 ^ length (map ws_lane (bytes mem p 16))"
    by (simp add: ws_mask_lanes)
  also have "\<dots> \<longleftrightarrow> (\<forall>b \<in> set (map ws_lane (bytes mem p 16)). bit b 7)"
    by (rule movemask_full_iff)
  also have "\<dots> \<longleftrightarrow> (\<forall>a \<in> {p..<p + 16}. is_ws (rd mem a))"
    by (simp add: bytes_def ws_lane_bit)
  finally show ?thesis .
qed


lemma scalar_loop_skip:
  "\<forall>a \<in> {p..<q}. is_ws (rd mem a) \<Longrightarrow> p \<le> q \<Longrightarrow> q \<le> e \<Longrightarrow>
   fst (scalar_loop mem p e) = fst (scalar_loop mem q e)"
proof (induction "q - p" arbitrary: p)
  case 0
  then show ?case by simp
next
  case (Suc n)
  then have "p < e" "is_ws (rd mem p)" "n = q - (p + 1)" "p + 1 \<le> q"
    by auto
  moreover from Suc.prems have "\<forall>a \<in> {p + 1..<q}. is_ws (rd mem a)"
    by auto
  ultimately have "fst (scalar_loop mem (p + 1) e) = fst (scalar_loop mem q e)"
    using Suc.hyps(1) Suc.prems(3) by blast
  with \<open>p < e\<close> \<open>is_ws (rd mem p)\<close> show ?case
    by (subst scalar_loop.simps) (simp add: split_beta)
qed

lemma simd_loop_scalar:
  "fst (scalar_loop mem (fst (simd_loop mem p e)) e) = fst (scalar_loop mem p e)"
proof (induction mem p e rule: simd_loop.induct)
  case (1 mem p e)
  show ?case
  proof (cases "p + 16 \<le> e \<and> ws_mask mem p = 0xFFFF")
    case True
    then have ws: "\<forall>a \<in> {p..<p + 16}. is_ws (rd mem a)"
      by (simp add: ws_mask_full_iff)
    from True have "fst (simd_loop mem p e) = fst (simd_loop mem (p + 16) e)"
      by (subst simd_loop.simps) (simp add: split_beta)
    moreover from True 1 have
      "fst (scalar_loop mem (fst (simd_loop mem (p + 16) e)) e) = fst (scalar_loop mem (p + 16) e)"
      by simp
    moreover from True have "fst (scalar_loop mem p e) = fst (scalar_loop mem (p + 16) e)"
      by (intro scalar_loop_skip ws) simp_all
    ultimately show ?thesis by simp
  next
    case False
    then have "fst (simd_loop mem p e) = p"
      by (subst simd_loop.simps) auto
    then show ?thesis by simp
  qed
qed

lemma simd_scalar_same_pointer:
  "fst (fp_skip_whitespace_simd mem str e) = fst (scalar_loop mem str e)"
  using simd_loop_scalar [of mem str e]
  by (simp add: fp_skip_whitespace_simd_def split_beta)

lemma scalar_loop_reads: "set (snd (scalar_loop mem p e)) \<subseteq> {p..<e}"
proof (induction mem p e rule: scalar_loop.induct)
  case (1 mem p e)
  show ?case
  proof (cases "p < e \<and> is_ws (rd mem p)")
    case True
    with 1 have "set (snd (scalar_loop mem (p + 1) e)) \<subseteq> {p + 1..<e}" by simp
    with True show ?thesis
      by (subst scalar_loop.simps) (auto simp: split_beta)
  next
    case False
    then show ?thesis
      by (subst scalar_loop.simps) auto
  qed
qed

lemma simd_loop_reads: "set (snd (simd_loop mem p e)) \<subseteq> {p..<e}"
proof (induction mem p e rule: simd_loop.induct)
  case (1 mem p e)
  show ?case
  proof (cases "p + 16 \<le> e \<and> ws_mask mem p = 0xFFFF")
    case True
    with 1 have "set (snd (simd_loop mem (p + 16) e)) \<subseteq> {p + 16..<e}" by simp
    with True show ?thesis
      by (subst simd_loop.simps) (auto simp: split_beta)
  next
    case False
    then show ?thesis
      by (subst simd_loop.simps) auto
  qed
qed

lemma simd_loop_ge: "p \<le> fst (simd_loop mem p e)"
proof (induction mem p e rule: simd_loop.induct)
  case (1 mem p e)
  show ?case
  proof (cases "p + 16 \<le> e \<and> ws_mask mem p = 0xFFFF")
    case True
    with 1 have "p + 16 \<le> fst (simd_loop mem (p + 16) e)" by simp
    with True show ?thesis
      by (subst simd_loop.simps) (simp add: split_beta)
  next
    case False
    then show ?thesis
      by (subst simd_loop.simps) auto
  qed
qed

lemma simd_reads: "set (snd (fp_skip_whitespace_simd mem str e)) \<subseteq> {str..<e}"
proof -
  obtain p rs1 where s: "simd_loop mem str e = (p, rs1)" by (cases "simd_loop mem str e")
  obtain q rs2 where t: "scalar_loop mem p e = (q, rs2)" by (cases "scalar_loop mem p e")
  have "set rs1 \<subseteq> {str..<e}" using simd_loop_reads [of mem str e] s by simp
  moreover have "str \<le> p" using simd_loop_ge [of str mem e] s by simp
  moreover have "set rs2 \<subseteq> {p..<e}" using scalar_loop_reads [of mem p e] t by simp
  ultimately show ?thesis
    by (auto simp: fp_skip_whitespace_simd_def s t)
qed

text \<open>
  Claim C2. For every byte range the SIMD path and the scalar path of the whitespace skipper
  return the same final pointer, so \<open>fp_skip_ws\<close> leaves the same scanner (cursor, line
  and column included) whichever path was compiled in; and every address either path loads
  from lies inside the range, before \<open>end\<close>.
\<close>

theorem skip_whitespace_simd_scalar_equiv:
  "fst (fp_skip_whitespace_simd mem str e) = fst (scalar_loop mem str e) \<and>
   fp_skip_ws True mem p = fp_skip_ws False mem p \<and>
   set (snd (fp_skip_whitespace_simd mem str e)) \<subseteq> {str..<e} \<and>
   set (snd (scalar_loop mem str e)) \<subseteq> {str..<e}"
  by (simp add: simd_scalar_same_pointer simd_reads scalar_loop_reads fp_skip_ws_def
      fp_skip_whitespace_def)

section \<open>Integer parsing\<close>

lemma bytes_Suc: "bytes mem a (Suc n) = rd mem a # bytes mem (Suc a) n"
  by (simp add: bytes_def upt_rec)

lemma bytes_0 [simp]: "bytes mem a 0 = []"
  by (simp add: bytes_def)

lemma digits_val_Nil [simp]: "digits_val v [] = v"
  by (simp add: digits_val_def)

lemma digits_val_Cons [simp]: "digits_val v (c # cs) = digits_val (v * 10 + (of_char c - 48)) cs"
  by (simp add: digits_val_def)

lemma digits_val_snoc [simp]: "digits_val v (cs @ [c]) = digits_val v cs * 10 + (of_char c - 48)"
  by (simp add: digits_val_def)

lemma digits_val_ge: "v \<le> digits_val v ds"
proof (induction ds arbitrary: v)
  case (Cons c cs)
  have "v \<le> v * 10 + (of_char c - 48)" by simp
  also have "\<dots> \<le> digits_val (v * 10 + (of_char c - 48)) cs" by (rule Cons.IH)
  finally show ?case by simp
qed simp

lemma of_char_digit_char: "d < 10 \<Longrightarrow> (of_char (digit_char d) :: nat) = 48 + d"
  by (simp add: digit_char_def)

lemma isdigit_digit_char: "d < 10 \<Longrightarrow> isdigit (digit_char d)"
  by (simp add: isdigit_def of_char_digit_char)

lemma dec_digits_isdigit: "\<forall>c \<in> set (dec_digits n). isdigit c"
proof (induction n rule: dec_digits.induct)
  case (1 n)
  show ?case
  proof (cases "n < 10")
    case True
    then show ?thesis by (subst dec_digits.simps) (simp add: isdigit_digit_char)
  next
    case False
    with 1 show ?thesis by (subst dec_digits.simps) (simp add: isdigit_digit_char)
  qed
qed

lemma dec_digits_val: "digits_val 0 (dec_digits n) = n"
proof (induction n rule: dec_digits.induct)
  case (1 n)
  show ?case
  proof (cases "n < 10")
    case True
    then show ?thesis by (subst dec_digits.simps) (simp add: of_char_digit_char)
  next
    case False
    with 1 show ?thesis by (subst dec_digits.simps) (simp add: of_char_digit_char)
  qed
qed

lemma dec_digits_nonempty: "dec_digits n \<noteq> []"
  by (subst dec_digits.simps) simp


lemma digit_word:
  assumes "isdigit c"
  shows "(of_char c - of_char (CHR ''0'') :: 64 word) = of_nat (of_char c - 48)"
    and "(of_char c :: nat) - 48 \<le> 9"
proof -
  from assms have r: "48 \<le> (of_char c :: nat)" "(of_char c :: nat) \<le> 57"
    by (simp_all add: isdigit_def)
  have "(of_char c :: 64 word) = of_nat (of_char c)" by (simp add: of_nat_of_char)
  moreover have "(of_char (CHR ''0'') :: 64 word) = of_nat 48" by simp
  ultimately have "(of_char c - of_char (CHR ''0'') :: 64 word) = of_nat (of_char c) - of_nat 48"
    by simp
  also have "\<dots> = of_nat (of_char c - 48)" using r(1) by (simp add: of_nat_diff)
  finally show "(of_char c - of_char (CHR ''0'') :: 64 word) = of_nat (of_char c - 48)" .
  from r show "(of_char c :: nat) - 48 \<le> 9" by simp
qed

lemma overflow_test:
  fixes val max_val :: "64 word" and d :: nat
  assumes "d \<le> 9" "9 \<le> unat max_val"
  shows "val > (max_val - of_nat d) div 10 \<longleftrightarrow> unat val * 10 + d > unat max_val"
proof -
  have ud: "unat (of_nat d :: 64 word) = d" using assms(1) by (simp add: unat_of_nat)
  then have "(of_nat d :: 64 word) \<le> max_val" using assms by (simp add: word_le_nat_alt)
  then have "unat (max_val - of_nat d) = unat max_val - d" using ud by (simp add: unat_sub)
  then have "unat ((max_val - of_nat d) div 10) = (unat max_val - d) div 10"
    by (simp add: unat_div)
  then have "val > (max_val - of_nat d) div 10 \<longleftrightarrow> unat val > (unat max_val - d) div 10"
    by (simp add: word_less_nat_alt)
  also have "\<dots> \<longleftrightarrow> unat val * 10 + d > unat max_val" using assms by arith
  finally show ?thesis .
qed

lemma accumulate_no_wrap:
  fixes val max_val :: "64 word" and d :: nat
  assumes "unat val * 10 + d \<le> unat max_val"
  shows "unat (val * 10 + of_nat d) = unat val * 10 + d"
proof -
  have "unat max_val < 2 ^ 64" using unsigned_less [of max_val, where 'a = nat] by simp
  with assms have lt: "unat val * 10 + d < 2 ^ 64" by simp
  have "val * 10 + of_nat d = of_nat (unat val * 10 + d)" by simp
  then have "unat (val * 10 + of_nat d) = (unat val * 10 + d) mod 2 ^ 64"
    by (simp only: unat_of_nat) simp
  with lt show ?thesis by simp
qed


lemma fp_skip_ws_scalar: "fp_skip_ws simd mem p = fp_skip_ws False mem p"
  using simd_scalar_same_pointer [of mem "current p" "endp p"]
  by (cases simd) (simp_all add: fp_skip_ws_def fp_skip_whitespace_def)

lemma fp_skip_ws_noop:
  assumes "current p < endp p \<longrightarrow> \<not> is_ws (rd mem (current p))"
  shows "fp_skip_ws simd mem p = p"
proof -
  have "fst (scalar_loop mem (current p) (endp p)) = current p"
    using assms by (subst scalar_loop.simps) simp
  moreover have "track_loop mem (current p) p = p"
    by (subst track_loop.simps) simp
  ultimately have "fp_skip_ws False mem p = p"
    by (simp add: fp_skip_ws_def fp_skip_whitespace_def)
  then show ?thesis
    by (subst fp_skip_ws_scalar)
qed

lemma fp_advance_plain:
  assumes "current p < endp p" "rd mem (current p) \<noteq> CHR 0x0A"
  shows "fp_advance mem p = (rd mem (current p), p\<lparr>current := current p + 1, column := column p + 1\<rparr>)"
  using assms by (simp add: fp_advance_def fp_at_end_def Let_def)

lemma fp_peek_in: "current p < endp p \<Longrightarrow> fp_peek mem p = rd mem (current p)"
  by (simp add: fp_peek_def fp_at_end_def)

lemma isdigit_not_nl: "isdigit c \<Longrightarrow> c \<noteq> CHR 0x0A"
  by (auto simp: isdigit_def)

lemma int64_loop_digits:
  assumes "\<forall>c \<in> set ds. isdigit c"
    and "bytes mem (current p) (length ds) = ds"
    and "endp p = current p + length ds"
    and "unat val \<le> unat max_val" and "9 \<le> unat max_val"
  shows "(digits_val (unat val) ds \<le> unat max_val \<longrightarrow>
            int64_loop mem max_val val p =
              (Some (of_nat (digits_val (unat val) ds)),
               p\<lparr>current := current p + length ds, column := column p + of_nat (length ds)\<rparr>))
       \<and> (digits_val (unat val) ds > unat max_val \<longrightarrow>
            fst (int64_loop mem max_val val p) = None \<and>
            error_code (snd (int64_loop mem max_val val p)) = FP_ERROR_OVERFLOW)"
  using assms
proof (induction ds arbitrary: val p)
  case Nil
  then have "fp_at_end p" by (simp add: fp_at_end_def)
  then have "int64_loop mem max_val val p = (Some val, p)"
    by (subst int64_loop.simps) simp
  with Nil show ?case by simp
next
  case (Cons c cs)
  let ?d = "(of_char c :: nat) - 48"
  from Cons.prems have dig: "isdigit c" and rest: "\<forall>c \<in> set cs. isdigit c" by simp_all
  from Cons.prems(2) have c: "rd mem (current p) = c"
    and bs: "bytes mem (Suc (current p)) (length cs) = cs"
    by (simp_all add: bytes_Suc)
  from Cons.prems(3) have lt: "current p < endp p" by simp
  have pk: "fp_peek mem p = c" using lt c by (simp add: fp_peek_in)
  have dw: "(of_char c - of_char (CHR ''0'') :: 64 word) = of_nat ?d" and d9: "?d \<le> 9"
    using digit_word [OF dig] by simp_all
  have test: "val > (max_val - of_nat ?d) div 10 \<longleftrightarrow> unat val * 10 + ?d > unat max_val"
    by (rule overflow_test [OF d9 Cons.prems(5)])
  have adv: "snd (fp_advance mem p) = p\<lparr>current := current p + 1, column := column p + 1\<rparr>"
    using fp_advance_plain [of p mem] lt c isdigit_not_nl [OF dig] by simp
  show ?case
  proof (cases "unat val * 10 + ?d > unat max_val")
    case True
    then have "int64_loop mem max_val val p = (None, fp_set_error p FP_ERROR_OVERFLOW ''Integer overflow'')"
      using lt pk dig dw test
      by (subst int64_loop.simps) (simp add: fp_at_end_def Let_def)
    moreover have "digits_val (unat val) (c # cs) > unat max_val"
      using True digits_val_ge [of "unat val * 10 + ?d" cs] by simp
    ultimately show ?thesis by (simp add: fp_set_error_def)
  next
    case False
    let ?val' = "val * 10 + of_nat ?d"
    let ?p' = "p\<lparr>current := current p + 1, column := column p + 1\<rparr>"
    from False have le: "unat val * 10 + ?d \<le> unat max_val" by simp
    have u: "unat ?val' = unat val * 10 + ?d" by (rule accumulate_no_wrap [OF le])
    have step: "int64_loop mem max_val val p = int64_loop mem max_val ?val' ?p'"
      using lt pk dig dw test False adv
      by (subst int64_loop.simps) (simp add: fp_at_end_def Let_def)
    have IH: "(digits_val (unat ?val') cs \<le> unat max_val \<longrightarrow>
            int64_loop mem max_val ?val' ?p' =
              (Some (of_nat (digits_val (unat ?val') cs)),
               ?p'\<lparr>current := current ?p' + length cs, column := column ?p' + of_nat (length cs)\<rparr>))
       \<and> (digits_val (unat ?val') cs > unat max_val \<longrightarrow>
            fst (int64_loop mem max_val ?val' ?p') = None \<and>
            error_code (snd (int64_loop mem max_val ?val' ?p')) = FP_ERROR_OVERFLOW)"
      using rest bs Cons.prems(3) le u Cons.prems(5)
      by (intro Cons.IH) simp_all
    show ?thesis
      using IH by (simp add: step u add.assoc add.commute)
  qed
qed


lemma sint_of_nat_small:
  "V < 2 ^ 63 \<Longrightarrow> sint (of_nat V :: 64 word) = int V"
proof -
  assume a: "V < 2 ^ 63"
  have "sint (word_of_int (int V) :: 64 word) = signed_take_bit (LENGTH(64) - 1) (int V)"
    by (rule sint_sbintrunc')
  then have "sint (of_nat V :: 64 word) = signed_take_bit 63 (int V)"
    by simp
  also have "\<dots> = int V"
    using a by (intro signed_take_bit_int_eq_self) simp_all
  finally show ?thesis .
qed

lemma sint_neg_of_nat:
  "V \<le> 2 ^ 63 \<Longrightarrow> sint (- of_nat V :: 64 word) = - int V"
proof -
  assume a: "V \<le> 2 ^ 63"
  have "sint (word_of_int (- int V) :: 64 word) = signed_take_bit (LENGTH(64) - 1) (- int V)"
    by (rule sint_sbintrunc')
  then have "sint (- of_nat V :: 64 word) = signed_take_bit 63 (- int V)"
    by simp
  also have "\<dots> = - int V"
    using a by (intro signed_take_bit_int_eq_self) simp_all
  finally show ?thesis .
qed


lemma isdigit_plain: "isdigit c \<Longrightarrow> \<not> is_ws c \<and> c \<noteq> CHR ''-'' \<and> c \<noteq> CHR ''+''"
  by (auto simp: isdigit_def is_ws_def)

lemma unat_INT64_MAX: "unat INT64_MAX = 2 ^ 63 - 1" "unat (INT64_MAX + 1) = 2 ^ 63"
  by (simp_all add: INT64_MAX_def)

lemma fp_parse_int64_unsigned:
  assumes dig: "\<forall>c \<in> set ds. isdigit c" and ne: "ds \<noteq> []"
    and mem: "bytes mem (current p) (length ds) = ds"
    and e: "endp p = current p + length ds"
  shows "(digits_val 0 ds < 2 ^ 63 \<longrightarrow>
            fp_parse_int64 simd mem p =
              (Some (of_nat (digits_val 0 ds)),
               p\<lparr>current := current p + length ds, column := column p + of_nat (length ds)\<rparr>))
       \<and> (digits_val 0 ds \<ge> 2 ^ 63 \<longrightarrow>
            fst (fp_parse_int64 simd mem p) = None \<and>
            error_code (snd (fp_parse_int64 simd mem p)) = FP_ERROR_OVERFLOW)"
proof -
  obtain c cs where ds: "ds = c # cs" using ne by (cases ds) auto
  have lt: "current p < endp p" using e ds by simp
  have c: "rd mem (current p) = c" using mem ds by (simp add: bytes_Suc)
  have cd: "isdigit c" using dig ds by simp
  note plain = isdigit_plain [OF cd]
  have ws: "fp_skip_ws simd mem p = p"
    by (rule fp_skip_ws_noop) (simp add: c plain)
  have pk: "fp_peek mem p = c" using lt c by (simp add: fp_peek_in)
  have loop: "(digits_val (unat (0::64 word)) ds \<le> unat INT64_MAX \<longrightarrow>
            int64_loop mem INT64_MAX 0 p =
              (Some (of_nat (digits_val (unat (0::64 word)) ds)),
               p\<lparr>current := current p + length ds, column := column p + of_nat (length ds)\<rparr>))
       \<and> (digits_val (unat (0::64 word)) ds > unat INT64_MAX \<longrightarrow>
            fst (int64_loop mem INT64_MAX 0 p) = None \<and>
            error_code (snd (int64_loop mem INT64_MAX 0 p)) = FP_ERROR_OVERFLOW)"
    by (rule int64_loop_digits [OF dig mem e]) (simp_all add: unat_INT64_MAX)
  have unfold: "fp_parse_int64 simd mem p =
      (case int64_loop mem INT64_MAX 0 p of
         (None, p2) \<Rightarrow> (None, p2)
       | (Some val, p2) \<Rightarrow> (Some val, p2))"
    using lt pk cd plain
    by (simp add: fp_parse_int64_def ws fp_at_end_def Let_def split: prod.split option.split)
  show ?thesis
  proof (cases "digits_val 0 ds < 2 ^ 63")
    case True
    with loop show ?thesis by (simp add: unfold unat_INT64_MAX)
  next
    case False
    with loop have "fst (int64_loop mem INT64_MAX 0 p) = None"
      and "error_code (snd (int64_loop mem INT64_MAX 0 p)) = FP_ERROR_OVERFLOW"
      by (simp_all add: unat_INT64_MAX)
    with False show ?thesis
      by (cases "int64_loop mem INT64_MAX 0 p") (simp add: unfold)
  qed
qed

lemma fp_parse_int64_signed:
  assumes dig: "\<forall>c \<in> set ds. isdigit c" and ne: "ds \<noteq> []"
    and sg: "s = CHR ''-'' \<or> s = CHR ''+''"
    and mem: "bytes mem (current p) (Suc (length ds)) = s # ds"
    and e: "endp p = current p + Suc (length ds)"
  shows "(digits_val 0 ds \<le> (if s = CHR ''-'' then 2 ^ 63 else 2 ^ 63 - 1) \<longrightarrow>
            fp_parse_int64 simd mem p =
              (Some (if s = CHR ''-'' then - of_nat (digits_val 0 ds) else of_nat (digits_val 0 ds)),
               p\<lparr>current := current p + Suc (length ds),
                 column := column p + of_nat (Suc (length ds))\<rparr>))
       \<and> (digits_val 0 ds > (if s = CHR ''-'' then 2 ^ 63 else 2 ^ 63 - 1) \<longrightarrow>
            fst (fp_parse_int64 simd mem p) = None \<and>
            error_code (snd (fp_parse_int64 simd mem p)) = FP_ERROR_OVERFLOW)"
proof -
  let ?M = "if s = CHR ''-'' then INT64_MAX + 1 else INT64_MAX"
  let ?p1 = "p\<lparr>current := current p + 1, column := column p + 1\<rparr>"
  obtain c cs where ds: "ds = c # cs" using ne by (cases ds) auto
  have lt: "current p < endp p" using e by simp
  have s: "rd mem (current p) = s" and mem1: "bytes mem (current ?p1) (length ds) = ds"
    using mem by (simp_all add: bytes_Suc)
  have e1: "endp ?p1 = current ?p1 + length ds" using e by simp
  have c: "rd mem (current ?p1) = c" using mem1 ds by (simp add: bytes_Suc)
  have cd: "isdigit c" using dig ds by simp
  have sws: "\<not> is_ws s" "s \<noteq> CHR 0x0A" using sg by (auto simp: is_ws_def)
  have ws: "fp_skip_ws simd mem p = p"
    by (rule fp_skip_ws_noop) (simp add: s sws)
  have pk: "fp_peek mem p = s" using lt s by (simp add: fp_peek_in)
  have adv: "snd (fp_advance mem p) = ?p1"
    using fp_advance_plain [of p mem] lt s sws by simp
  have pk1: "fp_peek mem ?p1 = c" using e1 c ds by (simp add: fp_peek_def fp_at_end_def)
  have uM: "unat ?M = (if s = CHR ''-'' then 2 ^ 63 else 2 ^ 63 - 1)"
    by (simp add: unat_INT64_MAX)
  have loop: "(digits_val (unat (0::64 word)) ds \<le> unat ?M \<longrightarrow>
            int64_loop mem ?M 0 ?p1 =
              (Some (of_nat (digits_val (unat (0::64 word)) ds)),
               ?p1\<lparr>current := current ?p1 + length ds, column := column ?p1 + of_nat (length ds)\<rparr>))
       \<and> (digits_val (unat (0::64 word)) ds > unat ?M \<longrightarrow>
            fst (int64_loop mem ?M 0 ?p1) = None \<and>
            error_code (snd (int64_loop mem ?M 0 ?p1)) = FP_ERROR_OVERFLOW)"
    by (rule int64_loop_digits [OF dig mem1 e1]) (simp_all add: unat_INT64_MAX)
  have unfold: "fp_parse_int64 simd mem p =
      (case int64_loop mem ?M 0 ?p1 of
         (None, p2) \<Rightarrow> (None, p2)
       | (Some val, p2) \<Rightarrow> (Some (if s = CHR ''-'' then - val else val), p2))"
    using lt pk cd sg pk1 adv
    by (auto simp: fp_parse_int64_def ws fp_at_end_def Let_def split: prod.split option.split)
  show ?thesis
  proof (cases "digits_val 0 ds \<le> unat ?M")
    case True
    with loop have "int64_loop mem ?M 0 ?p1 =
              (Some (of_nat (digits_val 0 ds)),
               ?p1\<lparr>current := current ?p1 + length ds, column := column ?p1 + of_nat (length ds)\<rparr>)"
      by simp
    with True show ?thesis
      unfolding unfold uM by (simp add: add.assoc add.commute)
  next
    case False
    with loop have "fst (int64_loop mem ?M 0 ?p1) = None"
      and "error_code (snd (int64_loop mem ?M 0 ?p1)) = FP_ERROR_OVERFLOW"
      by simp_all
    with False show ?thesis
      unfolding unfold uM by (cases "int64_loop mem ?M 0 ?p1") simp
  qed
qed


lemma big_digits:
  "\<forall>c \<in> set ''9223372036854775808''. isdigit c"
  "digits_val 0 ''9223372036854775808'' = 2 ^ 63"
  "\<forall>c \<in> set ''9223372036854775809''. isdigit c"
  "digits_val 0 ''9223372036854775809'' = 2 ^ 63 + 1"
  by (simp_all add: isdigit_def)

text \<open>
  Claim C1. For every signed 64-bit integer \<open>n\<close>, \<open>fp_parse_int64\<close> run on the decimal text
  of \<open>n\<close> succeeds and writes exactly \<open>n\<close> (and leaves the cursor at the end of the
  text); on \<open>9223372036854775808\<close>, with or without a \<open>+\<close>, and on
  \<open>-9223372036854775809\<close> it fails with \<open>FP_ERROR_OVERFLOW\<close>.
\<close>

theorem fp_parse_int64_roundtrip:
  assumes mem: "bytes mem (current p) (length txt) = txt"
    and e: "endp p = current p + length txt"
  shows "(- (2 ^ 63) \<le> n \<and> n < 2 ^ 63 \<and> txt = decimal_text n \<longrightarrow>
            (\<exists>w. fp_parse_int64 simd mem p =
                   (Some w, p\<lparr>current := endp p, column := column p + of_nat (length txt)\<rparr>)
                 \<and> sint w = n))
       \<and> (txt = ''9223372036854775808'' \<or> txt = ''+9223372036854775808''
            \<or> txt = ''-9223372036854775809'' \<longrightarrow>
            fst (fp_parse_int64 simd mem p) = None \<and>
            error_code (snd (fp_parse_int64 simd mem p)) = FP_ERROR_OVERFLOW)"
proof (rule conjI; rule impI)
  assume a: "- (2 ^ 63) \<le> n \<and> n < 2 ^ 63 \<and> txt = decimal_text n"
  show "\<exists>w. fp_parse_int64 simd mem p =
               (Some w, p\<lparr>current := endp p, column := column p + of_nat (length txt)\<rparr>)
             \<and> sint w = n"
  proof (cases "n < 0")
    case True
    let ?ds = "dec_digits (nat (- n))"
    from a True have tx: "txt = CHR ''-'' # ?ds" by (simp add: decimal_text_def)
    from a have "- n \<le> 2 ^ 63" by simp
    then have le: "nat (- n) \<le> 2 ^ 63" by (simp add: nat_le_iff)
    have "fp_parse_int64 simd mem p =
            (Some (- of_nat (nat (- n))),
             p\<lparr>current := current p + Suc (length ?ds), column := column p + of_nat (Suc (length ?ds))\<rparr>)"
      using fp_parse_int64_signed [of ?ds "CHR ''-''" mem p simd] mem e le
      by (simp add: tx dec_digits_isdigit dec_digits_nonempty dec_digits_val)
    moreover have "sint (- of_nat (nat (- n)) :: 64 word) = n"
      using sint_neg_of_nat [OF le] True by simp
    ultimately show ?thesis using e by (simp add: tx)
  next
    case False
    let ?ds = "dec_digits (nat n)"
    from a False have tx: "txt = ?ds" by (simp add: decimal_text_def)
    from a have "n < 2 ^ 63" by simp
    then have lt: "nat n < 2 ^ 63" by (simp add: nat_less_iff)
    have "fp_parse_int64 simd mem p =
            (Some (of_nat (nat n)),
             p\<lparr>current := current p + length ?ds, column := column p + of_nat (length ?ds)\<rparr>)"
      using fp_parse_int64_unsigned [of ?ds mem p simd] mem e lt
      by (simp add: tx dec_digits_isdigit dec_digits_nonempty dec_digits_val)
    moreover have "sint (of_nat (nat n) :: 64 word) = n"
      using sint_of_nat_small [OF lt] False by simp
    ultimately show ?thesis using e by (simp add: tx)
  qed
next
  assume "txt = ''9223372036854775808'' \<or> txt = ''+9223372036854775808''
            \<or> txt = ''-9223372036854775809''"
  then consider (plain) "txt = ''9223372036854775808''"
    | (plus) "txt = CHR ''+'' # ''9223372036854775808''"
    | (minus) "txt = CHR ''-'' # ''9223372036854775809''"
    by auto
  then show "fst (fp_parse_int64 simd mem p) = None \<and>
            error_code (snd (fp_parse_int64 simd mem p)) = FP_ERROR_OVERFLOW"
  proof cases
    case plain
    have m: "bytes mem (current p) (length ''9223372036854775808'') = ''9223372036854775808''"
      and e': "endp p = current p + length ''9223372036854775808''"
      using mem e unfolding plain by blast+
    have "(2::nat) ^ 63 \<le> digits_val 0 ''9223372036854775808''"
      unfolding big_digits(2) by simp
    with fp_parse_int64_unsigned [OF big_digits(1) _ m e', of simd] show ?thesis
      by blast
  next
    case plus
    have m: "bytes mem (current p) (Suc (length ''9223372036854775808'')) =
               CHR ''+'' # ''9223372036854775808''"
      and e': "endp p = current p + Suc (length ''9223372036854775808'')"
      using mem e unfolding plus length_Cons by blast+
    have "digits_val 0 ''9223372036854775808'' > (if CHR ''+'' = CHR ''-'' then 2 ^ 63 else 2 ^ 63 - 1)"
      unfolding big_digits(2) by simp
    with fp_parse_int64_signed [OF big_digits(1) _ _ m e', of simd] show ?thesis
      by blast
  next
    case minus
    have m: "bytes mem (current p) (Suc (length ''9223372036854775809'')) =
               CHR ''-'' # ''9223372036854775809''"
      and e': "endp p = current p + Suc (length ''9223372036854775809'')"
      using mem e unfolding minus length_Cons by blast+
    have "digits_val 0 ''9223372036854775809'' > (if CHR ''-'' = CHR ''-'' then 2 ^ 63 else 2 ^ 63 - 1)"
      unfolding big_digits(4) by simp
    with fp_parse_int64_signed [OF big_digits(3) _ _ m e', of simd] show ?thesis
      by blast
  qed
qed

theorem fp_parse_int64_roundtrip_witness:
  "bytes ''-42'' (current (fp_init 0 3)) (length ''-42'') = ''-42'' \<and>
   endp (fp_init 0 3) = current (fp_init 0 3) + length ''-42'' \<and>
   - (2 ^ 63) \<le> (- 42 :: int) \<and> (- 42 :: int) < 2 ^ 63 \<and> ''-42'' = decimal_text (- 42) \<and>
   (\<exists>w. fp_parse_int64 True ''-42'' (fp_init 0 3) =
          (Some w, (fp_init 0 3)\<lparr>current := endp (fp_init 0 3),
                     column := column (fp_init 0 3) + of_nat (length ''-42'')\<rparr>)
        \<and> sint w = - 42) \<and>
   bytes ''9223372036854775808'' (current (fp_init 0 19)) (length ''9223372036854775808'')
     = ''9223372036854775808'' \<and>
   endp (fp_init 0 19) = current (fp_init 0 19) + length ''9223372036854775808'' \<and>
   fst (fp_parse_int64 True ''9223372036854775808'' (fp_init 0 19)) = None \<and>
   error_code (snd (fp_parse_int64 True ''9223372036854775808'' (fp_init 0 19))) = FP_ERROR_OVERFLOW"
proof -
  have m1: "bytes ''-42'' (current (fp_init 0 3)) (length ''-42'') = ''-42''"
    by (simp add: bytes_def fp_init_def rd_def upt_rec)
  have e1: "endp (fp_init 0 3) = current (fp_init 0 3) + length ''-42''"
    by (simp add: fp_init_def)
  have "digit_char 4 = CHR ''4''" "digit_char 2 = CHR ''2''"
    by (rule of_char_eqI [where ?'a = nat], simp add: of_char_digit_char)+
  then have t1: "''-42'' = decimal_text (- 42)"
    by (simp add: decimal_text_def dec_digits.simps)
  have m2: "bytes ''9223372036854775808'' (current (fp_init 0 19)) (length ''9223372036854775808'')
     = ''9223372036854775808''"
    by (simp add: bytes_def fp_init_def rd_def upt_rec)
  have e2: "endp (fp_init 0 19) = current (fp_init 0 19) + length ''9223372036854775808''"
    by (simp add: fp_init_def)
  from fp_parse_int64_roundtrip [OF m1 e1, of "- 42" True] t1
  have r1: "\<exists>w. fp_parse_int64 True ''-42'' (fp_init 0 3) =
          (Some w, (fp_init 0 3)\<lparr>current := endp (fp_init 0 3),
                     column := column (fp_init 0 3) + of_nat (length ''-42'')\<rparr>)
        \<and> sint w = - 42"
    by simp
  from fp_parse_int64_roundtrip [OF m2 e2, of 0 True]
  have r2: "fst (fp_parse_int64 True ''9223372036854775808'' (fp_init 0 19)) = None \<and>
   error_code (snd (fp_parse_int64 True ''9223372036854775808'' (fp_init 0 19))) = FP_ERROR_OVERFLOW"
    by blast
  from m1 e1 t1 r1 m2 e2 r2 show ?thesis by simp
qed

section \<open>The scanner on its input\<close>

lemma frame_refl [simp]: "frame p p"
  by (simp add: frame_def)

lemma frame_trans: "frame p q \<Longrightarrow> frame q r \<Longrightarrow> frame p r"
  by (simp add: frame_def)

lemma bytes_step: "a < e \<Longrightarrow> bytes mem a (e - a) = rd mem a # bytes mem (Suc a) (e - Suc a)"
  using bytes_Suc [of mem a "e - Suc a"] by (simp add: Suc_diff_Suc)

lemma bytes_empty: "e \<le> a \<Longrightarrow> bytes mem a (e - a) = []"
  by simp

lemma bytes_drop: "drop k (bytes mem a n) = bytes mem (a + k) (n - k)"
proof (cases "k \<le> n")
  case True
  then have "a + k + (n - k) = a + n" by simp
  then show ?thesis by (simp add: bytes_def drop_map)
next
  case False
  then show ?thesis by (simp add: bytes_def)
qed

lemma input_Nil_iff: "input mem p = [] \<longleftrightarrow> endp p \<le> current p"
  by (auto simp: input_def bytes_def)

lemma length_input [simp]: "length (input mem p) = endp p - current p"
  by (simp add: input_def)

lemma input_Cons:
  "current p < endp p \<Longrightarrow>
   input mem p = rd mem (current p) # bytes mem (Suc (current p)) (endp p - Suc (current p))"
  by (simp add: input_def bytes_step)

lemma input_hd: "input mem p = c # cs \<Longrightarrow> current p < endp p \<and> rd mem (current p) = c"
proof -
  assume a: "input mem p = c # cs"
  then have "\<not> endp p \<le> current p" using input_Nil_iff [of mem p] by auto
  then have lt: "current p < endp p" by simp
  with a show ?thesis by (simp add: input_Cons)
qed

lemma input_moved:
  "endp p' = endp p \<Longrightarrow> current p' = current p + k \<Longrightarrow> input mem p' = drop k (input mem p)"
  by (simp add: input_def bytes_drop)

lemma scalar_loop_takeWhile:
  "fst (scalar_loop mem a e) = a + length (takeWhile is_ws (bytes mem a (e - a)))"
proof (induction mem a e rule: scalar_loop.induct)
  case (1 mem p e)
  show ?case
  proof (cases "p < e")
    case True
    note lt = this
    show ?thesis
    proof (cases "is_ws (rd mem p)")
      case True
      with lt 1 have "fst (scalar_loop mem (p + 1) e) =
          p + 1 + length (takeWhile is_ws (bytes mem (p + 1) (e - (p + 1))))" by simp
      with lt True show ?thesis
        by (subst scalar_loop.simps) (simp add: split_beta bytes_step)
    next
      case False
      with lt show ?thesis
        by (subst scalar_loop.simps) (simp add: bytes_step)
    qed
  next
    case False
    then show ?thesis by (subst scalar_loop.simps) simp
  qed
qed

lemma track_loop_result:
  "current p \<le> np \<Longrightarrow>
   current (track_loop mem np p) = np \<and> frame p (track_loop mem np p)"
proof (induction mem np p rule: track_loop.induct)
  case (1 mem np p)
  show ?case
  proof (cases "current p < np")
    case True
    let ?q = "(if rd mem (current p) = CHR 0x0A then p\<lparr>line := line p + 1, column := 1\<rparr>
            else p\<lparr>column := column p + 1\<rparr>)\<lparr>current := current p + 1\<rparr>"
    have q: "current ?q = current p + 1" "frame p ?q" by (simp_all add: frame_def)
    with True 1 have "current (track_loop mem np ?q) = np \<and> frame ?q (track_loop mem np ?q)"
      by simp
    moreover have "track_loop mem np p = track_loop mem np ?q"
      using True by (subst track_loop.simps) simp
    ultimately show ?thesis using q(2) by (auto intro: frame_trans)
  next
    case False
    then have "track_loop mem np p = p" by (subst track_loop.simps) simp
    with False 1(2) show ?thesis by simp
  qed
qed

lemma fp_skip_ws_result:
  "current (fp_skip_ws simd mem p) = current p + length (takeWhile is_ws (input mem p))
   \<and> frame p (fp_skip_ws simd mem p)"
proof -
  have "fp_skip_ws simd mem p =
      track_loop mem (current p + length (takeWhile is_ws (input mem p))) p"
    by (subst fp_skip_ws_scalar)
      (simp add: fp_skip_ws_def fp_skip_whitespace_def scalar_loop_takeWhile input_def)
  then show ?thesis using track_loop_result [of p "current p + length (takeWhile is_ws (input mem p))" mem]
    by simp
qed


lemma fp_advance_step:
  "current p < endp p \<Longrightarrow>
   current (snd (fp_advance mem p)) = Suc (current p) \<and> frame p (snd (fp_advance mem p))"
  by (simp add: fp_advance_def fp_at_end_def Let_def frame_def)

lemma fp_advance_input:
  assumes "input mem p = c # cs"
  shows "input mem (snd (fp_advance mem p)) = cs"
    and "current (snd (fp_advance mem p)) = Suc (current p)"
    and "frame p (snd (fp_advance mem p))"
proof -
  from assms have lt: "current p < endp p" by (simp add: input_hd)
  then show c: "current (snd (fp_advance mem p)) = Suc (current p)"
    and f: "frame p (snd (fp_advance mem p))"
    by (simp_all add: fp_advance_step)
  from f have "endp (snd (fp_advance mem p)) = endp p" by (simp add: frame_def)
  with c have "input mem (snd (fp_advance mem p)) = drop 1 (input mem p)"
    by (intro input_moved) simp_all
  with assms show "input mem (snd (fp_advance mem p)) = cs" by simp
qed

lemma fp_peek_input:
  "fp_peek mem p = (case input mem p of [] \<Rightarrow> CHR 0x00 | c # cs \<Rightarrow> c)"
proof (cases "current p < endp p")
  case True
  then show ?thesis by (simp add: fp_peek_def fp_at_end_def input_Cons)
next
  case False
  then have "input mem p = []" by (simp add: input_Nil_iff)
  with False show ?thesis by (simp add: fp_peek_def fp_at_end_def)
qed

lemma fp_at_end_input: "fp_at_end p \<longleftrightarrow> input mem p = []"
  by (simp add: fp_at_end_def input_Nil_iff)

lemma fp_match_char_hit:
  assumes "input mem p = c # cs"
  shows "fst (fp_match_char mem p c)"
    and "snd (fp_match_char mem p c) = snd (fp_advance mem p)"
  using assms by (simp_all add: fp_match_char_def fp_peek_input)

lemma fp_match_char_miss:
  assumes "case input mem p of [] \<Rightarrow> c \<noteq> CHR 0x00 | d # cs \<Rightarrow> d \<noteq> c"
  shows "fp_match_char mem p c = (False, p)"
  using assms by (auto simp: fp_match_char_def fp_peek_input split: list.splits)

lemma quoted_loop_result:
  "current (quoted_loop mem p) = current p + scan_quoted (input mem p)
   \<and> frame p (quoted_loop mem p)"
proof (induction mem p rule: quoted_loop.induct)
  case (1 mem p)
  show ?case
  proof (cases "input mem p")
    case Nil
    then have "quoted_loop mem p = p"
      by (subst quoted_loop.simps) (simp add: fp_at_end_input [of p mem])
    with Nil show ?thesis by simp
  next
    case (Cons c cs)
    note inp = this
    let ?p1 = "snd (fp_advance mem p)"
    note a1 = fp_advance_input [OF inp]
    have ne: "\<not> fp_at_end p" using inp by (simp add: fp_at_end_input [of p mem])
    have pk: "fp_peek mem p = c" using inp by (simp add: fp_peek_input)
    show ?thesis
    proof (cases "c = CHR 0x22")
      case True
      then have "quoted_loop mem p = p"
        using pk by (subst quoted_loop.simps) simp
      with True inp show ?thesis by simp
    next
      case False
      note nq = this
      show ?thesis
      proof (cases "c = CHR 0x5C")
        case True
        note bs = this
        show ?thesis
        proof (cases cs)
          case Nil
          then have e1: "fp_at_end ?p1" using a1(1) by (simp add: fp_at_end_input [of _ mem])
          then have "quoted_loop mem p = ?p1"
            using ne pk nq bs by (subst quoted_loop.simps) (simp add: Let_def)
          with a1 inp Nil bs show ?thesis by simp
        next
          case (Cons d ds)
          let ?p2 = "snd (fp_advance mem ?p1)"
          have i1: "input mem ?p1 = d # ds" using a1(1) Cons by simp
          note a2 = fp_advance_input [OF i1]
          have ne1: "\<not> fp_at_end ?p1" using i1 by (simp add: fp_at_end_input [of _ mem])
          have step: "quoted_loop mem p = quoted_loop mem ?p2"
            using ne pk nq bs ne1 by (subst quoted_loop.simps) (simp add: Let_def)
          have "current (quoted_loop mem ?p2) = current ?p2 + scan_quoted (input mem ?p2)
              \<and> frame ?p2 (quoted_loop mem ?p2)"
            using ne pk nq bs ne1 by (intro "1.IH"(1)) simp_all
          with a1 a2 inp Cons bs step show ?thesis
            by (auto intro: frame_trans)
        qed
      next
        case False
        have step: "quoted_loop mem p = quoted_loop mem ?p1"
          using ne pk nq False by (subst quoted_loop.simps) simp
        have "current (quoted_loop mem ?p1) = current ?p1 + scan_quoted (input mem ?p1)
              \<and> frame ?p1 (quoted_loop mem ?p1)"
          using ne pk nq False by (intro "1.IH"(2)) simp_all
        with a1 inp nq False step show ?thesis
          by (auto intro: frame_trans)
      qed
    qed
  qed
qed

lemma scan_quoted_le: "scan_quoted bs \<le> length bs"
proof (induction bs rule: scan_quoted.induct)
  case 1
  show ?case by simp
next
  case (2 c cs)
  show ?case
  proof (cases cs)
    case Nil
    then show ?thesis by simp
  next
    case (Cons d ds)
    with 2 show ?thesis by simp
  qed
qed

lemma scan_quoted_stop: "scan_quoted bs < length bs \<Longrightarrow> bs ! scan_quoted bs = CHR 0x22"
proof (induction bs rule: scan_quoted.induct)
  case 1
  then show ?case by simp
next
  case (2 c cs)
  show ?case
  proof (cases "c = CHR 0x22")
    case True
    then show ?thesis by simp
  next
    case False
    note nq = this
    show ?thesis
    proof (cases "c = CHR 0x5C")
      case True
      show ?thesis
      proof (cases cs)
        case Nil
        with 2(3) True show ?thesis by simp
      next
        case (Cons d ds)
        with 2(1) [OF nq True Cons] 2(3) nq True show ?thesis by simp
      qed
    next
      case False
      with 2(2) [OF nq False] 2(3) nq show ?thesis by simp
    qed
  qed
qed


lemma fp_skip_ws_input:
  "input mem (fp_skip_ws simd mem p) = dropWhile is_ws (input mem p)"
proof -
  let ?w = "length (takeWhile is_ws (input mem p))"
  from fp_skip_ws_result [of simd mem p]
  have "current (fp_skip_ws simd mem p) = current p + ?w" "endp (fp_skip_ws simd mem p) = endp p"
    by (simp_all add: frame_def)
  then have "input mem (fp_skip_ws simd mem p) = drop ?w (input mem p)"
    by (intro input_moved) simp_all
  then show ?thesis by (simp add: dropWhile_eq_drop)
qed

lemma set_error_code [simp]: "error_code (fp_set_error p c m) = c"
  by (simp add: fp_set_error_def)

lemma set_error_fields [simp]:
  "current (fp_set_error p c m) = current p" "endp (fp_set_error p c m) = endp p"
  "start (fp_set_error p c m) = start p"
  by (simp_all add: fp_set_error_def)

lemma bytes_take_input:
  "k \<le> endp p - current p \<Longrightarrow> bytes mem (current p) k = take k (input mem p)"
  by (simp add: input_def bytes_def take_map min_def)

lemma quoted_string_cases:
  fixes mem p simd
  defines "rest \<equiv> dropWhile is_ws (input mem p)"
    and "w \<equiv> length (takeWhile is_ws (input mem p))"
  shows "rest = [] \<or> hd rest \<noteq> CHR 0x22 \<Longrightarrow>
           fp_parse_quoted_string simd mem p =
             (None, fp_set_error (fp_skip_ws simd mem p) FP_ERROR_UNTERMINATED_STRING
                      ''Expected opening quote'')"
    and "rest = CHR 0x22 # body \<Longrightarrow> scan_quoted body = length body \<Longrightarrow>
           \<exists>p2. fp_parse_quoted_string simd mem p =
             (None, fp_set_error p2 FP_ERROR_UNTERMINATED_STRING ''Expected closing quote'')
             \<and> current p2 = current p + w + 1 + length body \<and> frame p p2"
    and "rest = CHR 0x22 # body \<Longrightarrow> scan_quoted body < length body \<Longrightarrow>
           \<exists>p3. fp_parse_quoted_string simd mem p =
             (Some \<lparr>data = current p + w + 1, len = of_nat (scan_quoted body)\<rparr>, p3)
             \<and> current p3 = current p + w + 1 + scan_quoted body + 1 \<and> frame p p3"
proof -
  define p0 where "p0 = fp_skip_ws simd mem p"
  have c0: "current p0 = current p + w" and f0: "frame p p0"
    using fp_skip_ws_result [of simd mem p] by (simp_all add: p0_def w_def)
  have i0: "input mem p0 = rest"
    by (simp add: p0_def fp_skip_ws_input rest_def)
  {
    assume "rest = [] \<or> hd rest \<noteq> CHR 0x22"
    then have "case input mem p0 of [] \<Rightarrow> CHR 0x22 \<noteq> CHR 0x00 | d # cs \<Rightarrow> d \<noteq> CHR 0x22"
      by (auto simp: i0 split: list.splits)
    then have "fp_match_char mem p0 (CHR 0x22) = (False, p0)"
      by (rule fp_match_char_miss)
    then show "fp_parse_quoted_string simd mem p =
             (None, fp_set_error (fp_skip_ws simd mem p) FP_ERROR_UNTERMINATED_STRING
                      ''Expected opening quote'')"
      by (simp add: fp_parse_quoted_string_def p0_def [symmetric])
  }
  {
    fix k
    assume rest: "rest = CHR 0x22 # body" and k: "k = scan_quoted body"
    let ?p1 = "snd (fp_advance mem p0)"
    have i0': "input mem p0 = CHR 0x22 # body" using i0 rest by simp
    note m1 = fp_match_char_hit [OF i0']
    note a1 = fp_advance_input [OF i0']
    define p2 where "p2 = quoted_loop mem ?p1"
    have c2: "current p2 = current ?p1 + k" and f2: "frame ?p1 p2"
      using quoted_loop_result [of mem ?p1] a1(1) by (simp_all add: p2_def k)
    have e2: "endp p2 = endp ?p1" using f2 by (simp add: frame_def)
    have i2: "input mem p2 = drop k body"
      using input_moved [OF e2 c2, of mem] a1(1) by simp
    have st: "current ?p1 = current p + w + 1" using a1(2) c0 by simp
    have fp2: "frame p p2" using f0 a1(3) f2 by (blast intro: frame_trans)
    have unfold: "fp_parse_quoted_string simd mem p =
           (case fp_match_char mem p2 (CHR 0x22) of
               (False, p3) \<Rightarrow>
                 (None, fp_set_error p3 FP_ERROR_UNTERMINATED_STRING ''Expected closing quote'')
             | (True, p3) \<Rightarrow>
                 (Some \<lparr>data = current ?p1,
                        len = word_of_int (int (current p3) - int (current ?p1) - 1)\<rparr>, p3))"
      using m1 by (cases "fp_match_char mem p0 (CHR 0x22)")
        (simp add: fp_parse_quoted_string_def p0_def [symmetric] Let_def p2_def)
    note c2 i2 st fp2 unfold
  }
  note loop = this
  {
    assume rest: "rest = CHR 0x22 # body" and full: "scan_quoted body = length body"
    let ?p1 = "snd (fp_advance mem p0)"
    let ?p2 = "quoted_loop mem ?p1"
    note l = loop [OF rest refl]
    have "input mem ?p2 = []" using l(2) full by simp
    then have "fp_match_char mem ?p2 (CHR 0x22) = (False, ?p2)"
      by (intro fp_match_char_miss) simp
    then have "fp_parse_quoted_string simd mem p =
             (None, fp_set_error ?p2 FP_ERROR_UNTERMINATED_STRING ''Expected closing quote'')"
      by (simp add: l(5))
    moreover have "current ?p2 = current p + w + 1 + length body" using l(1,3) full by simp
    ultimately show "\<exists>p2. fp_parse_quoted_string simd mem p =
             (None, fp_set_error p2 FP_ERROR_UNTERMINATED_STRING ''Expected closing quote'')
             \<and> current p2 = current p + w + 1 + length body \<and> frame p p2"
      using l(4) by blast
  }
  {
    assume rest: "rest = CHR 0x22 # body" and lt: "scan_quoted body < length body"
    let ?k = "scan_quoted body"
    let ?p1 = "snd (fp_advance mem p0)"
    let ?p2 = "quoted_loop mem ?p1"
    let ?p3 = "snd (fp_advance mem ?p2)"
    note l = loop [OF rest refl]
    have q: "body ! ?k = CHR 0x22" using scan_quoted_stop [OF lt] .
    have i2': "input mem ?p2 = CHR 0x22 # drop (Suc ?k) body"
      using l(2) lt q by (simp add: Cons_nth_drop_Suc [symmetric])
    note m3 = fp_match_char_hit [OF i2']
    note a3 = fp_advance_input [OF i2']
    have len: "int (current ?p3) - int (current ?p1) - 1 = int ?k"
      using a3(2) l(1) by simp
    have A: "fp_parse_quoted_string simd mem p =
            (Some \<lparr>data = current ?p1, len = word_of_int (int (current ?p3) - int (current ?p1) - 1)\<rparr>, ?p3)"
      using m3 by (cases "fp_match_char mem ?p2 (CHR 0x22)") (simp add: l(5))
    have B: "(word_of_int (int (current ?p3) - int (current ?p1) - 1) :: 64 word) = of_nat ?k"
      by (simp only: len) simp
    have C: "current ?p1 = current p + w + 1" by (rule l(3))
    have "fp_parse_quoted_string simd mem p =
            (Some \<lparr>data = current p + w + 1, len = of_nat ?k\<rparr>, ?p3)"
      using A [unfolded B] by (simp only: C)
    moreover have "current ?p3 = current p + w + 1 + ?k + 1" using a3(2) l(1,3) by simp
    moreover have "frame p ?p3" using l(4) a3(3) by (blast intro: frame_trans)
    ultimately show "\<exists>p3. fp_parse_quoted_string simd mem p =
             (Some \<lparr>data = current p + w + 1, len = of_nat (scan_quoted body)\<rparr>, p3)
             \<and> current p3 = current p + w + 1 + scan_quoted body + 1 \<and> frame p p3"
      by blast
  }
qed


lemma take_bytes: "k \<le> n \<Longrightarrow> take k (bytes mem a n) = bytes mem a k"
  by (simp add: bytes_def take_map min_def)

text \<open>
  Claim C5. After the leading whitespace, \<open>fp_parse_quoted_string\<close> fails exactly when
  the opening quote is absent or the scan of the body ran to the end of the input without
  meeting an unescaped quote, and every failure sets \<open>FP_ERROR_UNTERMINATED_STRING\<close>. On
  success the view starts right after the opening quote and spans the bytes of the buffer up
  to the closing quote, escape sequences as they are, and the cursor is just past the closing
  quote.
\<close>

theorem fp_parse_quoted_string_spec:
  "let bs = input mem p;
       w = length (takeWhile is_ws bs);
       rest = drop w bs;
       body = tl rest;
       k = scan_quoted body;
       r = fp_parse_quoted_string simd mem p
   in (fst r = None \<longleftrightarrow> (rest = [] \<or> hd rest \<noteq> CHR 0x22 \<or> k = length body)) \<and>
      (fst r = None \<longrightarrow> error_code (snd r) = FP_ERROR_UNTERMINATED_STRING) \<and>
      (fst r \<noteq> None \<longrightarrow>
         fst r = Some \<lparr>data = current p + w + 1, len = of_nat k\<rparr> \<and>
         bytes mem (current p + w + 1) k = take k body \<and>
         body ! k = CHR 0x22 \<and>
         current (snd r) = current p + w + 1 + k + 1)"
proof -
  define bs where "bs = input mem p"
  define w where "w = length (takeWhile is_ws bs)"
  define rest where "rest = drop w bs"
  define body where "body = tl rest"
  define k where "k = scan_quoted body"
  define r where "r = fp_parse_quoted_string simd mem p"
  have rest_eq: "rest = dropWhile is_ws (input mem p)"
    by (simp add: rest_def w_def bs_def dropWhile_eq_drop)
  have w_eq: "w = length (takeWhile is_ws (input mem p))"
    by (simp add: w_def bs_def)
  have kle: "k \<le> length body" by (simp add: k_def scan_quoted_le)
  consider (absent) "rest = [] \<or> hd rest \<noteq> CHR 0x22"
    | (open_end) "rest = CHR 0x22 # body" "k = length body"
    | (closed) "rest = CHR 0x22 # body" "k < length body"
    using kle by (cases rest; cases "k = length body") (auto simp: body_def)
  then have "(fst r = None \<longleftrightarrow> (rest = [] \<or> hd rest \<noteq> CHR 0x22 \<or> k = length body)) \<and>
      (fst r = None \<longrightarrow> error_code (snd r) = FP_ERROR_UNTERMINATED_STRING) \<and>
      (fst r \<noteq> None \<longrightarrow>
         fst r = Some \<lparr>data = current p + w + 1, len = of_nat k\<rparr> \<and>
         bytes mem (current p + w + 1) k = take k body \<and>
         body ! k = CHR 0x22 \<and>
         current (snd r) = current p + w + 1 + k + 1)"
  proof cases
    case absent
    then have "r = (None, fp_set_error (fp_skip_ws simd mem p) FP_ERROR_UNTERMINATED_STRING
                      ''Expected opening quote'')"
      unfolding r_def rest_eq by (rule quoted_string_cases(1))
    with absent show ?thesis by auto
  next
    case open_end
    from quoted_string_cases(2) [of mem p body simd] open_end
    obtain p2 where "r = (None, fp_set_error p2 FP_ERROR_UNTERMINATED_STRING ''Expected closing quote'')"
      unfolding r_def rest_eq k_def by blast
    with open_end show ?thesis by simp
  next
    case closed
    from quoted_string_cases(3) [of mem p body simd] closed
    obtain p3 where r: "r = (Some \<lparr>data = current p + w + 1, len = of_nat k\<rparr>, p3)"
      and c3: "current p3 = current p + w + 1 + k + 1"
      unfolding r_def rest_eq k_def w_eq by blast
    have q: "body ! k = CHR 0x22" using scan_quoted_stop [of body] closed(2) by (simp add: k_def)
    have "body = drop (w + 1) (input mem p)"
      by (simp add: body_def rest_def bs_def drop_Suc drop_tl)
    also have "\<dots> = bytes mem (current p + (w + 1)) (endp p - current p - (w + 1))"
      by (simp add: input_def bytes_drop)
    finally have b: "body = bytes mem (current p + (w + 1)) (endp p - current p - (w + 1))" .
    then have "k \<le> endp p - current p - (w + 1)" using kle by (metis length_bytes)
    then have "take k body = bytes mem (current p + (w + 1)) k"
      by (subst b) (rule take_bytes)
    then have vb: "bytes mem (current p + w + 1) k = take k body" by (simp add: add.assoc)
    from closed q vb show ?thesis by (simp add: r c3)
  qed
  then show ?thesis
    unfolding bs_def w_def rest_def body_def k_def r_def Let_def .
qed

theorem fp_parse_quoted_string_spec_witness:
  "fst (fp_parse_quoted_string True
         [CHR 0x20, CHR 0x20, CHR 0x22, CHR ''a'', CHR 0x5C, CHR 0x22, CHR ''b'', CHR 0x22, CHR 0x20, CHR ''x'']
         (fp_init 0 10)) = Some \<lparr>data = 3, len = 4\<rparr> \<and>
   current (snd (fp_parse_quoted_string True
         [CHR 0x20, CHR 0x20, CHR 0x22, CHR ''a'', CHR 0x5C, CHR 0x22, CHR ''b'', CHR 0x22, CHR 0x20, CHR ''x'']
         (fp_init 0 10))) = 8 \<and>
   fst (fp_parse_quoted_string True [CHR 0x22, CHR ''a'', CHR 0x5C, CHR 0x22] (fp_init 0 4)) = None \<and>
   error_code (snd (fp_parse_quoted_string True [CHR 0x22, CHR ''a'', CHR 0x5C, CHR 0x22] (fp_init 0 4)))
     = FP_ERROR_UNTERMINATED_STRING"
proof -
  have i1: "input [CHR 0x20, CHR 0x20, CHR 0x22, CHR ''a'', CHR 0x5C, CHR 0x22, CHR ''b'', CHR 0x22, CHR 0x20, CHR ''x'']
         (fp_init 0 10) =
      [CHR 0x20, CHR 0x20, CHR 0x22, CHR ''a'', CHR 0x5C, CHR 0x22, CHR ''b'', CHR 0x22, CHR 0x20, CHR ''x'']"
    by (simp add: input_def bytes_def fp_init_def rd_def upt_rec)
  have i2: "input [CHR 0x22, CHR ''a'', CHR 0x5C, CHR 0x22] (fp_init 0 4) =
      [CHR 0x22, CHR ''a'', CHR 0x5C, CHR 0x22]"
    by (simp add: input_def bytes_def fp_init_def rd_def upt_rec)
  have c: "current (fp_init 0 10) = 0" by (simp add: fp_init_def)
  from fp_parse_quoted_string_spec [of
      "[CHR 0x20, CHR 0x20, CHR 0x22, CHR ''a'', CHR 0x5C, CHR 0x22, CHR ''b'', CHR 0x22, CHR 0x20, CHR ''x'']"
      "fp_init 0 10" True]
  have r1: "fst (fp_parse_quoted_string True
         [CHR 0x20, CHR 0x20, CHR 0x22, CHR ''a'', CHR 0x5C, CHR 0x22, CHR ''b'', CHR 0x22, CHR 0x20, CHR ''x'']
         (fp_init 0 10)) = Some \<lparr>data = 3, len = 4\<rparr> \<and>
   current (snd (fp_parse_quoted_string True
         [CHR 0x20, CHR 0x20, CHR 0x22, CHR ''a'', CHR 0x5C, CHR 0x22, CHR ''b'', CHR 0x22, CHR 0x20, CHR ''x'']
         (fp_init 0 10))) = 8"
    by (auto simp: i1 c Let_def is_ws_def eval_nat_numeral)
  from fp_parse_quoted_string_spec [of "[CHR 0x22, CHR ''a'', CHR 0x5C, CHR 0x22]" "fp_init 0 4" True]
  have r2: "fst (fp_parse_quoted_string True [CHR 0x22, CHR ''a'', CHR 0x5C, CHR 0x22] (fp_init 0 4)) = None \<and>
   error_code (snd (fp_parse_quoted_string True [CHR 0x22, CHR ''a'', CHR 0x5C, CHR 0x22] (fp_init 0 4)))
     = FP_ERROR_UNTERMINATED_STRING"
    by (auto simp: i2 Let_def is_ws_def eval_nat_numeral)
  from r1 r2 show ?thesis by simp
qed

section \<open>CSV fields and rows: progress\<close>

lemma advanced_refl [simp]: "advanced p p"
  by (simp add: advanced_def)

lemma advanced_trans: "advanced p q \<Longrightarrow> advanced q r \<Longrightarrow> advanced p r"
  by (simp add: advanced_def)

lemma advanced_set_error [simp]: "advanced p (fp_set_error q c m) = advanced p q"
  by (simp add: advanced_def)

lemma frame_advanced: "frame p q \<Longrightarrow> current p \<le> current q \<Longrightarrow> advanced p q"
  by (simp add: frame_def advanced_def)

lemma advanced_skip_ws: "advanced p (fp_skip_ws simd mem p)"
  using fp_skip_ws_result [of simd mem p] by (simp add: frame_advanced)

lemma advanced_advance: "advanced p (snd (fp_advance mem p))"
  by (simp add: fp_advance_def fp_at_end_def Let_def advanced_def)

lemma advanced_match_char: "advanced p (snd (fp_match_char mem p c))"
  by (simp add: fp_match_char_def advanced_advance)

lemma bare_loop_result:
  "current (bare_loop mem p) = current p + length (takeWhile bare_char (input mem p))
   \<and> frame p (bare_loop mem p)"
proof (induction mem p rule: bare_loop.induct)
  case (1 mem p)
  show ?case
  proof (cases "input mem p")
    case Nil
    then have "bare_loop mem p = p"
      by (subst bare_loop.simps) (simp add: fp_at_end_input [of p mem])
    with Nil show ?thesis by simp
  next
    case (Cons c cs)
    note inp = this
    let ?p1 = "snd (fp_advance mem p)"
    note a1 = fp_advance_input [OF inp]
    have ne: "\<not> fp_at_end p" using inp by (simp add: fp_at_end_input [of p mem])
    have pk: "fp_peek mem p = c" using inp by (simp add: fp_peek_input)
    show ?thesis
    proof (cases "bare_char c")
      case True
      then have cond: "fp_peek mem p \<noteq> CHR '',''" "fp_peek mem p \<noteq> CHR 0x0A" "fp_peek mem p \<noteq> CHR 0x0D"
        using pk by (simp_all add: bare_char_def)
      have step: "bare_loop mem p = bare_loop mem ?p1"
        using ne cond by (subst bare_loop.simps) simp
      have "current (bare_loop mem ?p1) = current ?p1 + length (takeWhile bare_char (input mem ?p1))
            \<and> frame ?p1 (bare_loop mem ?p1)"
        using ne cond by (intro "1.IH") simp_all
      with a1 inp True step show ?thesis by (auto intro: frame_trans)
    next
      case False
      then have "bare_loop mem p = p"
        using pk by (subst bare_loop.simps) (auto simp: bare_char_def)
      with False inp show ?thesis by simp
    qed
  qed
qed

lemma dropWhile_ws_hd: "dropWhile is_ws xs = c # cs \<Longrightarrow> \<not> is_ws c"
  using hd_dropWhile [of is_ws xs] by auto

lemma csv_field_cases:
  fixes mem p simd
  defines "rest \<equiv> dropWhile is_ws (input mem p)"
    and "w \<equiv> length (takeWhile is_ws (input mem p))"
  shows "rest = [] \<Longrightarrow> fp_parse_csv_field simd mem p = (None, fp_skip_ws simd mem p)"
    and "rest = CHR 0x22 # body \<Longrightarrow>
           fp_parse_csv_field simd mem p = fp_parse_quoted_string simd mem (fp_skip_ws simd mem p)"
    and "rest = c # cs \<Longrightarrow> c \<noteq> CHR 0x22 \<Longrightarrow>
           \<exists>v p1. fp_parse_csv_field simd mem p = (Some v, p1) \<and> data v = current p + w \<and>
             current p1 = current p + w + length (takeWhile bare_char rest) \<and> frame p p1"
proof -
  define p0 where "p0 = fp_skip_ws simd mem p"
  have c0: "current p0 = current p + w" and f0: "frame p p0"
    using fp_skip_ws_result [of simd mem p] by (simp_all add: p0_def w_def)
  have i0: "input mem p0 = rest"
    by (simp add: p0_def fp_skip_ws_input rest_def)
  {
    assume "rest = []"
    then have "fp_at_end p0" using i0 by (simp add: fp_at_end_input [of p0 mem])
    then show "fp_parse_csv_field simd mem p = (None, fp_skip_ws simd mem p)"
      by (simp add: fp_parse_csv_field_def p0_def [symmetric])
  }
  {
    assume "rest = CHR 0x22 # body"
    then have "\<not> fp_at_end p0" "fp_peek mem p0 = CHR 0x22"
      using i0 by (simp_all add: fp_at_end_input [of p0 mem] fp_peek_input)
    then show "fp_parse_csv_field simd mem p = fp_parse_quoted_string simd mem (fp_skip_ws simd mem p)"
      by (simp add: fp_parse_csv_field_def p0_def [symmetric])
  }
  {
    assume r: "rest = c # cs" and nq: "c \<noteq> CHR 0x22"
    then have "\<not> fp_at_end p0" "fp_peek mem p0 \<noteq> CHR 0x22"
      using i0 by (simp_all add: fp_at_end_input [of p0 mem] fp_peek_input)
    then have u: "fp_parse_csv_field simd mem p =
        (Some \<lparr>data = current p0,
               len = of_nat (trim_loop mem (current p0) (current (bare_loop mem p0)) - current p0)\<rparr>,
         bare_loop mem p0)"
      by (simp add: fp_parse_csv_field_def p0_def [symmetric] Let_def)
    from bare_loop_result [of mem p0]
    have "current (bare_loop mem p0) = current p + w + length (takeWhile bare_char rest)"
      and "frame p0 (bare_loop mem p0)"
      by (simp_all add: i0 c0)
    with f0 u c0 show "\<exists>v p1. fp_parse_csv_field simd mem p = (Some v, p1) \<and> data v = current p + w \<and>
             current p1 = current p + w + length (takeWhile bare_char rest) \<and> frame p p1"
      by (auto intro: frame_trans)
  }
qed


lemma quoted_string_advanced:
  "advanced p (snd (fp_parse_quoted_string simd mem p))"
  and quoted_string_progress:
  "dropWhile is_ws (input mem p) = CHR 0x22 # body \<Longrightarrow>
     current p < current (snd (fp_parse_quoted_string simd mem p))"
proof -
  let ?rest = "dropWhile is_ws (input mem p)"
  let ?r = "fp_parse_quoted_string simd mem p"
  have both: "advanced p (snd ?r) \<and> (\<forall>body. ?rest = CHR 0x22 # body \<longrightarrow> current p < current (snd ?r))"
  proof (cases "?rest = [] \<or> hd ?rest \<noteq> CHR 0x22")
    case True
    then have "?r = (None, fp_set_error (fp_skip_ws simd mem p) FP_ERROR_UNTERMINATED_STRING
                      ''Expected opening quote'')"
      by (rule quoted_string_cases(1))
    moreover have "\<And>body. ?rest \<noteq> CHR 0x22 # body" using True by (metis list.sel(1) list.distinct(1))
    ultimately show ?thesis by (simp add: advanced_skip_ws)
  next
    case False
    then obtain body where rest: "?rest = CHR 0x22 # body"
      by (cases ?rest) auto
    have "scan_quoted body \<le> length body" by (rule scan_quoted_le)
    then consider "scan_quoted body = length body" | "scan_quoted body < length body"
      by linarith
    then obtain q where "current (snd ?r) = current q" "endp (snd ?r) = endp q" "start (snd ?r) = start q"
      and "frame p q" and "current p < current q"
    proof cases
      case 1
      from quoted_string_cases(2) [OF rest 1, of simd] obtain p2 where
        "?r = (None, fp_set_error p2 FP_ERROR_UNTERMINATED_STRING ''Expected closing quote'')"
        "current p2 = current p + length (takeWhile is_ws (input mem p)) + 1 + length body"
        "frame p p2" by blast
      then show ?thesis by (intro that [of p2]) simp_all
    next
      case 2
      from quoted_string_cases(3) [OF rest 2, of simd] obtain p3 where
        "?r = (Some \<lparr>data = current p + length (takeWhile is_ws (input mem p)) + 1,
                      len = of_nat (scan_quoted body)\<rparr>, p3)"
        "current p3 = current p + length (takeWhile is_ws (input mem p)) + 1 + scan_quoted body + 1"
        "frame p p3" by blast
      then show ?thesis by (intro that [of p3]) simp_all
    qed
    then show ?thesis by (simp add: advanced_def frame_def)
  qed
  then show "advanced p (snd ?r)" by simp
  from both show "?rest = CHR 0x22 # body \<Longrightarrow> current p < current (snd ?r)" by simp
qed

lemma skip_ws_idem_input:
  "dropWhile is_ws (input mem (fp_skip_ws simd mem p)) = dropWhile is_ws (input mem p)"
  by (simp add: fp_skip_ws_input)

lemma csv_field_advanced: "advanced p (snd (fp_parse_csv_field simd mem p))"
proof (cases "dropWhile is_ws (input mem p)")
  case Nil
  then show ?thesis by (simp add: csv_field_cases(1) advanced_skip_ws)
next
  case (Cons c cs)
  show ?thesis
  proof (cases "c = CHR 0x22")
    case True
    with Cons have "fp_parse_csv_field simd mem p =
        fp_parse_quoted_string simd mem (fp_skip_ws simd mem p)"
      by (simp add: csv_field_cases(2))
    then show ?thesis
      using advanced_skip_ws [of p simd mem]
        quoted_string_advanced [of "fp_skip_ws simd mem p" simd mem]
      by (auto intro: advanced_trans)
  next
    case False
    from csv_field_cases(3) [OF Cons False, of simd] obtain v p1 where
      "fp_parse_csv_field simd mem p = (Some v, p1)" "frame p p1"
      "current p1 = current p + length (takeWhile is_ws (input mem p))
         + length (takeWhile bare_char (dropWhile is_ws (input mem p)))"
      by blast
    then show ?thesis by (simp add: frame_advanced)
  qed
qed

lemma fields_loop_advanced:
  "advanced p (snd (snd (csv_fields_loop simd mem count fs p)))"
proof (induction simd mem count fs p rule: csv_fields_loop.induct)
  case (1 simd mem count fs p)
  show ?case
  proof (cases "\<not> fp_at_end p \<and> count < FP_CSV_MAX_FIELDS")
    case False
    then show ?thesis by (subst csv_fields_loop.simps) auto
  next
    case True
    obtain r p1 where f: "fp_parse_csv_field simd mem p = (r, p1)"
      by (cases "fp_parse_csv_field simd mem p")
    have a1: "advanced p p1" using csv_field_advanced [of p simd mem] f by simp
    show ?thesis
    proof (cases r)
      case None
      with True f a1 show ?thesis by (subst csv_fields_loop.simps) simp
    next
      case (Some v)
      obtain m p2 where mc: "fp_match_char mem p1 (CHR '','') = (m, p2)"
        by (cases "fp_match_char mem p1 (CHR '','')")
      have a2: "advanced p1 p2" using advanced_match_char [of p1 mem "CHR '',''"] mc by simp
      show ?thesis
      proof (cases m)
        case False
        with True f Some mc a1 a2 show ?thesis
          by (subst csv_fields_loop.simps) (auto intro: advanced_trans)
      next
        case m: True
        have "advanced p2 (snd (snd (csv_fields_loop simd mem (count + 1) (fs @ [v]) p2)))"
          using True f [symmetric] Some mc [symmetric] m by (intro "1.IH") auto
        with True f Some mc m a1 a2 show ?thesis
          by (subst csv_fields_loop.simps) (auto intro: advanced_trans)
      qed
    qed
  qed
qed


lemma fields_loop_unfold:
  "\<not> fp_at_end p \<Longrightarrow> count < FP_CSV_MAX_FIELDS \<Longrightarrow>
   csv_fields_loop simd mem count fs p =
     (case fp_parse_csv_field simd mem p of
        (None, p1) \<Rightarrow> (count, fs, p1)
      | (Some f, p1) \<Rightarrow>
          (case fp_match_char mem p1 (CHR '','') of
             (False, p2) \<Rightarrow> (count + 1, fs @ [f], p2)
           | (True, p2) \<Rightarrow> csv_fields_loop simd mem (count + 1) (fs @ [f]) p2))"
  by (subst csv_fields_loop.simps) simp

lemma fields_loop_after_field:
  assumes "\<not> fp_at_end p" "count < FP_CSV_MAX_FIELDS"
  shows "advanced (snd (fp_parse_csv_field simd mem p))
           (snd (snd (csv_fields_loop simd mem count fs p)))"
proof -
  obtain r p1 where f: "fp_parse_csv_field simd mem p = (r, p1)"
    by (cases "fp_parse_csv_field simd mem p")
  obtain m p2 where mc: "fp_match_char mem p1 (CHR '','') = (m, p2)"
    by (cases "fp_match_char mem p1 (CHR '','')")
  have a2: "advanced p1 p2" using advanced_match_char [of p1 mem "CHR '',''"] mc by simp
  show ?thesis
  proof (cases r)
    case None
    with f show ?thesis by (simp add: fields_loop_unfold [OF assms])
  next
    case (Some v)
    show ?thesis
    proof (cases m)
      case True
      with f Some mc a2 fields_loop_advanced [of p2 simd mem "count + 1" "fs @ [v]"]
      show ?thesis by (auto simp: fields_loop_unfold [OF assms] intro: advanced_trans)
    next
      case False
      with f Some mc a2 show ?thesis by (simp add: fields_loop_unfold [OF assms])
    qed
  qed
qed

lemma takeWhile_all_length: "dropWhile P xs = [] \<Longrightarrow> length (takeWhile P xs) = length xs"
  by (metis append_Nil2 takeWhile_dropWhile_id)

lemma fields_loop_progress:
  assumes ne: "\<not> fp_at_end p" and cnt: "count < FP_CSV_MAX_FIELDS"
  shows "current p < current (snd (snd (csv_fields_loop simd mem count fs p)))"
proof -
  let ?res = "snd (snd (csv_fields_loop simd mem count fs p))"
  let ?w = "length (takeWhile is_ws (input mem p))"
  note after = fields_loop_after_field [OF ne cnt, of simd mem fs]
  have inp: "input mem p \<noteq> []" using ne by (simp add: fp_at_end_input [of p mem])
  show ?thesis
  proof (cases "dropWhile is_ws (input mem p)")
    case Nil
    then have "fp_parse_csv_field simd mem p = (None, fp_skip_ws simd mem p)"
      by (rule csv_field_cases(1))
    moreover have "current (fp_skip_ws simd mem p) = current p + length (input mem p)"
      using fp_skip_ws_result [of simd mem p] takeWhile_all_length [OF Nil] by simp
    moreover have "0 < length (input mem p)" using ne by (simp add: fp_at_end_def)
    ultimately show ?thesis using after by (simp add: advanced_def)
  next
    case (Cons c cs)
    show ?thesis
    proof (cases "c = CHR 0x22")
      case True
      let ?p0 = "fp_skip_ws simd mem p"
      from Cons True have "fp_parse_csv_field simd mem p = fp_parse_quoted_string simd mem ?p0"
        by (simp add: csv_field_cases(2))
      moreover have "current ?p0 < current (snd (fp_parse_quoted_string simd mem ?p0))"
        using Cons True by (intro quoted_string_progress [where body = cs]) (simp add: fp_skip_ws_input is_ws_def)
      moreover have "current p \<le> current ?p0"
        using advanced_skip_ws [of p simd mem] by (simp add: advanced_def)
      ultimately show ?thesis using after by (simp add: advanced_def)
    next
      case False
      from csv_field_cases(3) [OF Cons False, of simd] obtain v p1 where
        f: "fp_parse_csv_field simd mem p = (Some v, p1)" and fr: "frame p p1"
        and c1: "current p1 = current p + ?w + length (takeWhile bare_char (c # cs))"
        by (auto simp: Cons)
      show ?thesis
      proof (cases "bare_char c")
        case True
        then have "current p < current p1" using c1 by simp
        then show ?thesis using after f by (simp add: advanced_def)
      next
        case nb: False
        have "\<not> is_ws c" using Cons by (rule dropWhile_ws_hd)
        with nb have c: "c = CHR '',''" by (auto simp: bare_char_def is_ws_def)
        have c1': "current p1 = current p + ?w" using c1 nb by simp
        have "endp p1 = endp p" using fr by (simp add: frame_def)
        then have "input mem p1 = drop ?w (input mem p)" using c1' by (rule input_moved)
        then have i1: "input mem p1 = CHR '','' # cs"
          using Cons c by (simp add: dropWhile_eq_drop)
        note m = fp_match_char_hit [OF i1]
        note a = fp_advance_input [OF i1]
        let ?p2 = "snd (fp_advance mem p1)"
        have "csv_fields_loop simd mem count fs p =
            csv_fields_loop simd mem (count + 1) (fs @ [v]) ?p2"
          using f m by (cases "fp_match_char mem p1 (CHR '','')")
            (simp add: fields_loop_unfold [OF ne cnt])
        moreover have "current ?p2 \<le> current (snd (snd (csv_fields_loop simd mem (count + 1) (fs @ [v]) ?p2)))"
          using fields_loop_advanced [of ?p2 simd mem "count + 1" "fs @ [v]"]
          by (simp add: advanced_def)
        ultimately show ?thesis using a(2) c1' by simp
      qed
    qed
  qed
qed

lemma csv_line_advanced:
  "advanced (snd (snd (csv_fields_loop simd mem 0 [] p))) (snd (snd (fp_parse_csv_line simd mem p)))"
proof -
  obtain n vs p1 where l: "csv_fields_loop simd mem 0 [] p = (n, vs, p1)"
    by (cases "csv_fields_loop simd mem 0 [] p") auto
  obtain m p2 where mc: "fp_match_char mem p1 (CHR 0x0D) = (m, p2)"
    by (cases "fp_match_char mem p1 (CHR 0x0D)")
  have "advanced p1 p2" using advanced_match_char [of p1 mem "CHR 0x0D"] mc by simp
  moreover have "advanced p2 (snd (fp_match_char mem p2 (CHR 0x0A)))"
    by (rule advanced_match_char)
  ultimately have "advanced p1 (snd (fp_match_char mem p2 (CHR 0x0A)))"
    by (rule advanced_trans)
  then show ?thesis by (cases m) (simp_all add: fp_parse_csv_line_def l mc)
qed

lemma csv_line_progress:
  assumes "\<not> fp_at_end p"
  shows "endp (snd (snd (fp_parse_csv_line simd mem p))) = endp p"
    and "current p < current (snd (snd (fp_parse_csv_line simd mem p)))"
proof -
  have "current p < current (snd (snd (csv_fields_loop simd mem 0 [] p)))"
    using assms by (intro fields_loop_progress) (simp_all add: FP_CSV_MAX_FIELDS_def)
  moreover have "advanced p (snd (snd (csv_fields_loop simd mem 0 [] p)))"
    by (rule fields_loop_advanced)
  moreover note csv_line_advanced [of simd mem p]
  ultimately show "endp (snd (snd (fp_parse_csv_line simd mem p))) = endp p"
    and "current p < current (snd (snd (fp_parse_csv_line simd mem p)))"
    by (simp_all add: advanced_def)
qed

termination csv_rows
proof (relation "measure (\<lambda>(simd, mem, p). endp p - current p)")
  show "wf (measure (\<lambda>(simd, mem, p). endp p - current p))" by simp
next
  fix simd mem p x y xa ya
  assume ne: "\<not> fp_at_end p" and a: "(x, y) = fp_parse_csv_line simd mem p"
    and b: "(xa, ya) = y"
  have "ya = snd (snd (fp_parse_csv_line simd mem p))"
    using a b by (metis snd_conv)
  with csv_line_progress [OF ne, of simd mem] ne
  show "((simd, mem, ya), (simd, mem, p)) \<in> measure (\<lambda>(simd, mem, p). endp p - current p)"
    by (simp add: fp_at_end_def)
qed

declare csv_rows.simps [simp del]

section \<open>CSV fields after line terminators\<close>






section \<open>The cursor and the end of the buffer\<close>

text \<open>
  \<open>within\<close> is the invariant \<open>start \<le> current \<le> end\<close>. Every operation that tests
  against \<open>end\<close> keeps it (and moves the cursor forward only, see the \<open>advanced\<close>
  lemmas); \<open>fp_parse_double\<close> keeps it only as long as \<open>strtod\<close> stops before \<open>end\<close>.
\<close>

lemma within_init: "within (fp_init a n)"
  by (simp add: within_def fp_init_def)

lemma within_set_error [simp]: "within (fp_set_error p c m) = within p"
  by (simp add: within_def)

lemma within_advancedI:
  "within p \<Longrightarrow> advanced p q \<Longrightarrow> current q \<le> endp p \<Longrightarrow> within q"
  by (simp add: within_def advanced_def)

lemma within_advance: "within p \<Longrightarrow> within (snd (fp_advance mem p))"
  by (simp add: within_def fp_advance_def fp_at_end_def Let_def)

lemma within_match_char: "within p \<Longrightarrow> within (snd (fp_match_char mem p c))"
  by (simp add: fp_match_char_def within_advance)

lemma ws_split_length:
  "length (takeWhile is_ws (input mem p)) + length (dropWhile is_ws (input mem p)) = endp p - current p"
  by (metis length_append length_input takeWhile_dropWhile_id)

lemma within_skip_ws: "within p \<Longrightarrow> within (fp_skip_ws simd mem p)"
proof -
  assume w: "within p"
  have "current (fp_skip_ws simd mem p) \<le> current p + (endp p - current p)"
    using fp_skip_ws_result [of simd mem p] ws_split_length [of mem p] by simp
  then have "current (fp_skip_ws simd mem p) \<le> endp p" using w by (simp add: within_def)
  with w advanced_skip_ws [of p simd mem] show ?thesis by (rule within_advancedI)
qed

lemma within_match_str:
  assumes "within p"
  shows "within (snd (fp_match_str mem p e))"
proof (cases "fp_remaining p \<ge> len e")
  case True
  have "fp_remaining p = of_nat (endp p - current p)"
    using assms by (simp add: fp_remaining_def within_def of_nat_diff)
  then have "unat (fp_remaining p) \<le> endp p - current p"
    by (simp add: unat_of_nat)
  moreover have "unat (len e) \<le> unat (fp_remaining p)"
    using True by (simp add: word_le_nat_alt)
  ultimately have "current p + unat (len e) \<le> endp p"
    using assms unfolding within_def by linarith
  with assms show ?thesis by (simp add: fp_match_str_def within_def)
next
  case False
  with assms show ?thesis by (simp add: fp_match_str_def)
qed

lemma within_int64_loop:
  "within p \<Longrightarrow> within (snd (int64_loop mem max_val val p))"
proof (induction mem max_val val p rule: int64_loop.induct)
  case (1 mem max_val val p)
  show ?case
  proof (cases "\<not> fp_at_end p \<and> isdigit (fp_peek mem p)")
    case False
    with 1(2) show ?thesis by (subst int64_loop.simps) auto
  next
    case True
    let ?digit = "of_char (fp_peek mem p) - of_char (CHR ''0'') :: 64 word"
    show ?thesis
    proof (cases "val > (max_val - ?digit) div 10")
      case over: True
      with True 1(2) show ?thesis by (subst int64_loop.simps) (simp add: Let_def)
    next
      case False
      have "within (snd (int64_loop mem max_val (val * 10 + ?digit) (snd (fp_advance mem p))))"
        using True False 1(2) by (intro "1.IH") (simp_all add: within_advance)
      with True False show ?thesis by (subst int64_loop.simps) (simp add: Let_def)
    qed
  qed
qed

lemma snd_case_loop:
  "snd (case x of (None, p2) \<Rightarrow> (None, p2) | (Some v, p2) \<Rightarrow> (Some (f v), p2)) = snd x"
  by (cases x; cases "fst x") auto

lemma within_parse_int64:
  assumes "within p"
  shows "within (snd (fp_parse_int64 simd mem p))"
proof -
  define q where "q = fp_skip_ws simd mem p"
  have wq: "within q" using assms by (simp add: q_def within_skip_ws)
  obtain neg p1 where np:
    "(if fp_peek mem q = CHR ''-'' then (True, snd (fp_advance mem q))
      else if fp_peek mem q = CHR ''+'' then (False, snd (fp_advance mem q))
      else (False, q)) = (neg, p1)"
    by (cases "if fp_peek mem q = CHR ''-'' then (True, snd (fp_advance mem q))
      else if fp_peek mem q = CHR ''+'' then (False, snd (fp_advance mem q))
      else (False, q)")
  then have "p1 = snd (fp_advance mem q) \<or> p1 = q" by (auto split: if_splits)
  then have w1: "within p1" using wq by (auto simp: within_advance)
  have unfold: "fp_parse_int64 simd mem p =
      (if fp_at_end q then (None, fp_set_error q FP_ERROR_EOF ''Expected number'')
       else if \<not> isdigit (fp_peek mem p1)
         then (None, fp_set_error p1 FP_ERROR_INVALID_NUMBER ''Expected digit'')
       else (case int64_loop mem (if neg then INT64_MAX + 1 else INT64_MAX) 0 p1 of
               (None, p2) \<Rightarrow> (None, p2)
             | (Some val, p2) \<Rightarrow> (Some (if neg then - val else val), p2)))"
    unfolding fp_parse_int64_def q_def [symmetric] Let_def np by simp
  show ?thesis
    unfolding unfold using wq w1 within_int64_loop [OF w1]
    by (simp add: snd_case_loop)
qed

lemma within_quoted_string:
  assumes "within p"
  shows "within (snd (fp_parse_quoted_string simd mem p))"
proof -
  let ?rest = "dropWhile is_ws (input mem p)"
  let ?w = "length (takeWhile is_ws (input mem p))"
  let ?r = "fp_parse_quoted_string simd mem p"
  note sp = ws_split_length [of mem p]
  have "current (snd ?r) \<le> endp p"
  proof (cases "?rest = [] \<or> hd ?rest \<noteq> CHR 0x22")
    case True
    then have "?r = (None, fp_set_error (fp_skip_ws simd mem p) FP_ERROR_UNTERMINATED_STRING
                      ''Expected opening quote'')"
      by (rule quoted_string_cases(1))
    then show ?thesis
      using within_skip_ws [OF assms, of simd mem] fp_skip_ws_result [of simd mem p]
      by (auto simp: within_def frame_def)
  next
    case False
    then obtain body where rest: "?rest = CHR 0x22 # body"
      by (cases ?rest) auto
    have tot: "current p + ?w + 1 + length body = endp p"
      using sp rest assms by (simp add: within_def)
    have "scan_quoted body \<le> length body" by (rule scan_quoted_le)
    then consider "scan_quoted body = length body" | "scan_quoted body < length body"
      by linarith
    then show ?thesis
    proof cases
      case 1
      from quoted_string_cases(2) [OF rest 1, of simd] tot show ?thesis by auto
    next
      case 2
      from quoted_string_cases(3) [OF rest 2, of simd] tot 2 show ?thesis by auto
    qed
  qed
  with assms quoted_string_advanced [of p simd mem] show ?thesis by (rule within_advancedI)
qed

lemma within_csv_field:
  assumes "within p"
  shows "within (snd (fp_parse_csv_field simd mem p))"
proof (cases "dropWhile is_ws (input mem p)")
  case Nil
  then show ?thesis using assms by (simp add: csv_field_cases(1) within_skip_ws)
next
  case (Cons c cs)
  show ?thesis
  proof (cases "c = CHR 0x22")
    case True
    with Cons have "fp_parse_csv_field simd mem p =
        fp_parse_quoted_string simd mem (fp_skip_ws simd mem p)"
      by (simp add: csv_field_cases(2))
    then show ?thesis using assms by (simp add: within_quoted_string within_skip_ws)
  next
    case False
    from csv_field_cases(3) [OF Cons False, of simd] obtain v p1 where
      f: "fp_parse_csv_field simd mem p = (Some v, p1)"
      and c1: "current p1 = current p + length (takeWhile is_ws (input mem p))
         + length (takeWhile bare_char (dropWhile is_ws (input mem p)))"
      by blast
    have "length (takeWhile bare_char (dropWhile is_ws (input mem p)))
            \<le> length (dropWhile is_ws (input mem p))"
      by (rule length_takeWhile_le)
    then have "current p1 \<le> endp p"
      using c1 ws_split_length [of mem p] assms unfolding within_def by linarith
    moreover have "advanced p p1" using csv_field_advanced [of p simd mem] f by simp
    ultimately have "within p1" using assms by (intro within_advancedI [of p p1])
    with f show ?thesis by simp
  qed
qed

lemma within_fields_loop:
  "within p \<Longrightarrow> within (snd (snd (csv_fields_loop simd mem count fs p)))"
proof (induction simd mem count fs p rule: csv_fields_loop.induct)
  case (1 simd mem count fs p)
  show ?case
  proof (cases "\<not> fp_at_end p \<and> count < FP_CSV_MAX_FIELDS")
    case False
    with 1(2) show ?thesis by (subst csv_fields_loop.simps) auto
  next
    case True
    then have ne: "\<not> fp_at_end p" and cnt: "count < FP_CSV_MAX_FIELDS" by simp_all
    obtain r p1 where f: "fp_parse_csv_field simd mem p = (r, p1)"
      by (cases "fp_parse_csv_field simd mem p")
    have w1: "within p1" using within_csv_field [OF 1(2), of simd mem] f by simp
    obtain m p2 where mc: "fp_match_char mem p1 (CHR '','') = (m, p2)"
      by (cases "fp_match_char mem p1 (CHR '','')")
    have w2: "within p2" using within_match_char [OF w1, of mem "CHR '',''"] mc by simp
    show ?thesis
    proof (cases r)
      case None
      with f w1 show ?thesis by (simp add: fields_loop_unfold [OF ne cnt])
    next
      case (Some v)
      show ?thesis
      proof (cases m)
        case False
        with f Some mc w2 show ?thesis by (simp add: fields_loop_unfold [OF ne cnt])
      next
        case m: True
        have "within (snd (snd (csv_fields_loop simd mem (count + 1) (fs @ [v]) p2)))"
          using True f [symmetric] Some mc [symmetric] m w2 by (intro "1.IH") auto
        with f Some mc m show ?thesis by (simp add: fields_loop_unfold [OF ne cnt])
      qed
    qed
  qed
qed

lemma within_csv_line: "within p \<Longrightarrow> within (snd (snd (fp_parse_csv_line simd mem p)))"
proof -
  assume w: "within p"
  obtain n vs p1 where l: "csv_fields_loop simd mem 0 [] p = (n, vs, p1)"
    by (cases "csv_fields_loop simd mem 0 [] p") auto
  have w1: "within p1" using within_fields_loop [OF w, of simd mem 0 "[]"] l by simp
  obtain m p2 where mc: "fp_match_char mem p1 (CHR 0x0D) = (m, p2)"
    by (cases "fp_match_char mem p1 (CHR 0x0D)")
  have "within p2" using within_match_char [OF w1, of mem "CHR 0x0D"] mc by simp
  then have "within (snd (fp_match_char mem p2 (CHR 0x0A)))" by (rule within_match_char)
  then show ?thesis by (cases m) (simp_all add: fp_parse_csv_line_def l mc)
qed

lemma within_parse_double:
  assumes "within p"
    and "current (fp_skip_ws simd mem p) \<le> strtod mem (current (fp_skip_ws simd mem p))"
    and "strtod mem (current (fp_skip_ws simd mem p)) \<le> endp p"
  shows "within (snd (fp_parse_double strtod simd mem p))"
proof -
  have w: "within (fp_skip_ws simd mem p)" using assms(1) by (rule within_skip_ws)
  have e: "endp (fp_skip_ws simd mem p) = endp p"
    using fp_skip_ws_result [of simd mem p] by (simp add: frame_def)
  show ?thesis using w assms(2,3) e
    by (simp add: fp_parse_double_def Let_def within_def)
qed

text \<open>
  Claim C4. After every parse operation (\<open>fp_parse_double\<close> among them) the cursor is to
  lie between \<open>start\<close> and \<open>end\<close>. On the six bytes \<open>123456\<close> of which the scanner was
  given the first three (\<open>fp_init(input, 3)\<close>), \<open>fp_parse_double\<close> lets \<open>strtod\<close> read
  on to the terminator and moves the cursor to offset 6, beyond \<open>end\<close> at offset 3.
\<close>

theorem fp_parse_double_passes_end:
  "start (fp_init 0 3) \<le> current (fp_init 0 3) \<and> current (fp_init 0 3) \<le> endp (fp_init 0 3) \<and>
   fp_parse_double strtod_decimal True (''123456'' @ [CHR 0x00]) (fp_init 0 3) =
     (True, \<lparr>start = 0, current = 6, endp = 3, line = 1, column = 7,
             error_code = FP_OK, error_msg = []\<rparr>)"
  by (simp add: fp_parse_double_def fp_init_def fp_skip_ws_def fp_skip_whitespace_def
      fp_skip_whitespace_simd_def simd_loop.simps scalar_loop.simps track_loop.simps
      strtod_decimal_def skip_space.simps scan_digits.simps rd_def is_ws_def isspace_def
      isdigit_def Let_def)

section \<open>CSV rows against the reference split\<close>

lemma scan_quoted_append:
  "scan_quoted xs < length xs \<Longrightarrow> scan_quoted (xs @ ys) = scan_quoted xs"
proof (induction xs rule: scan_quoted.induct)
  case 1
  then show ?case by simp
next
  case (2 c cs)
  show ?case
  proof (cases "c = CHR 0x22")
    case True
    then show ?thesis by simp
  next
    case False
    note nq = this
    show ?thesis
    proof (cases "c = CHR 0x5C")
      case True
      show ?thesis
      proof (cases cs)
        case Nil
        with 2(3) True show ?thesis by simp
      next
        case (Cons d ds)
        with 2(1) [OF nq True Cons] 2(3) nq True show ?thesis by simp
      qed
    next
      case False
      with 2(2) [OF nq False] 2(3) nq show ?thesis by simp
    qed
  qed
qed

lemma quote_not_ws: "\<not> is_ws (CHR 0x22)" "bare_char (CHR 0x22)" "\<not> is_ws (CHR '','')"
  "\<not> bare_char (CHR '','')" "\<not> bare_char (CHR 0x0A)" "\<not> bare_char (CHR 0x0D)"
  by (simp_all add: is_ws_def bare_char_def)

lemma input_after:
  assumes "input mem p = xs @ rest" "frame p p1" "current p1 = current p + length xs"
  shows "input mem p1 = rest"
proof -
  have "endp p1 = endp p" using assms(2) by (simp add: frame_def)
  then have "input mem p1 = drop (length xs) (input mem p)" using assms(3) by (rule input_moved)
  with assms(1) show ?thesis by simp
qed

lemma csv_field_on_bare:
  assumes ok: "\<forall>c \<in> set s. bare_char c \<and> c \<noteq> CHR 0x22"
    and inp: "input mem p = s @ rest"
    and nxt: "rest = [] \<or> \<not> bare_char (hd rest)"
    and blank: "(\<forall>c \<in> set s. is_ws c) \<longrightarrow> rest \<noteq> [] \<and> hd rest = CHR '',''"
  shows "\<exists>v p1. fp_parse_csv_field simd mem p = (Some v, p1) \<and> input mem p1 = rest \<and> frame p p1"
proof -
  have tr: "takeWhile bare_char rest = []" using nxt by (cases rest) auto
  show ?thesis
  proof (cases "\<forall>c \<in> set s. is_ws c")
    case True
    with blank obtain rest' where rest: "rest = CHR '','' # rest'" by (cases rest) auto
    have tw: "takeWhile is_ws (input mem p) = s" and dw: "dropWhile is_ws (input mem p) = CHR '','' # rest'"
      using True by (simp_all add: inp rest quote_not_ws)
    from csv_field_cases(3) [OF dw, of simd] obtain v p1 where
      f: "fp_parse_csv_field simd mem p = (Some v, p1)" and fr: "frame p p1"
      and c1: "current p1 = current p + length s + length (takeWhile bare_char (CHR '','' # rest'))"
      by (auto simp: tw dw)
    have "current p1 = current p + length s" using c1 by (simp add: quote_not_ws)
    with inp fr have "input mem p1 = rest" by (rule input_after)
    with f fr show ?thesis by blast
  next
    case False
    then obtain x where x: "x \<in> set s" "\<not> is_ws x" by blast
    then have tw: "takeWhile is_ws (input mem p) = takeWhile is_ws s"
      and dw: "dropWhile is_ws (input mem p) = dropWhile is_ws s @ rest"
      by (simp_all add: inp takeWhile_append1 dropWhile_append1)
    have ne: "dropWhile is_ws s \<noteq> []" using x by auto
    then obtain c cs where core: "dropWhile is_ws s = c # cs" by (cases "dropWhile is_ws s") auto
    have sub: "set (c # cs) \<subseteq> set s" using set_dropWhileD [of _ is_ws s] core by auto
    then have cq: "c \<noteq> CHR 0x22" and allb: "\<forall>y \<in> set (c # cs). bare_char y" using ok by auto
    have dw': "dropWhile is_ws (input mem p) = c # (cs @ rest)" using dw core by simp
    from csv_field_cases(3) [OF dw' cq, of simd] obtain v p1 where
      f: "fp_parse_csv_field simd mem p = (Some v, p1)" and fr: "frame p p1"
      and c1: "current p1 = current p + length (takeWhile is_ws s)
                  + length (takeWhile bare_char ((c # cs) @ rest))"
      by (auto simp: tw dw')
    have "takeWhile bare_char ((c # cs) @ rest) = c # cs"
      using allb tr by (simp only: takeWhile_append2) simp
    then have "current p1 = current p + (length (takeWhile is_ws s) + length (dropWhile is_ws s))"
      using c1 core by simp
    also have "length (takeWhile is_ws s) + length (dropWhile is_ws s) = length s"
      by (metis length_append takeWhile_dropWhile_id)
    finally have "current p1 = current p + length s" .
    with inp fr have "input mem p1 = rest" by (rule input_after)
    with f fr show ?thesis by blast
  qed
qed


lemma csv_field_on_quoted:
  assumes ok: "scan_quoted (b @ [CHR 0x22]) = length b"
    and inp: "input mem p = (CHR 0x22 # b @ [CHR 0x22]) @ rest"
  shows "\<exists>v p1. fp_parse_csv_field simd mem p = (Some v, p1) \<and> input mem p1 = rest \<and> frame p p1"
proof -
  let ?body = "b @ CHR 0x22 # rest"
  let ?p0 = "fp_skip_ws simd mem p"
  have inp': "input mem p = CHR 0x22 # ?body" using inp by simp
  have dw: "dropWhile is_ws (input mem p) = CHR 0x22 # ?body"
    and tw: "takeWhile is_ws (input mem p) = []"
    by (simp_all add: inp' quote_not_ws)
  have f: "fp_parse_csv_field simd mem p = fp_parse_quoted_string simd mem ?p0"
    using dw by (rule csv_field_cases(2))
  have c0: "current ?p0 = current p" and f0: "frame p ?p0"
    using fp_skip_ws_result [of simd mem p] by (simp_all add: tw)
  have i0: "input mem ?p0 = CHR 0x22 # ?body" by (simp add: fp_skip_ws_input dw)
  have dw0: "dropWhile is_ws (input mem ?p0) = CHR 0x22 # ?body"
    and tw0: "takeWhile is_ws (input mem ?p0) = []"
    by (simp_all add: i0 quote_not_ws)
  have "scan_quoted ((b @ [CHR 0x22]) @ rest) = scan_quoted (b @ [CHR 0x22])"
    by (rule scan_quoted_append) (simp add: ok)
  then have k: "scan_quoted ?body = length b" using ok by simp
  then have lt: "scan_quoted ?body < length ?body" by simp
  from quoted_string_cases(3) [OF dw0 lt, of simd] obtain p3 where
    r: "fp_parse_quoted_string simd mem ?p0 =
          (Some \<lparr>data = current ?p0 + length (takeWhile is_ws (input mem ?p0)) + 1,
                 len = of_nat (scan_quoted ?body)\<rparr>, p3)"
    and c3: "current p3 = current ?p0 + length (takeWhile is_ws (input mem ?p0)) + 1
               + scan_quoted ?body + 1"
    and f3: "frame ?p0 p3"
    by blast
  have fr: "frame p p3" using f0 f3 by (rule frame_trans)
  have "current p3 = current p + length (CHR 0x22 # b @ [CHR 0x22])"
    using c3 by (simp add: tw0 k c0)
  with inp fr have "input mem p3 = rest" by (rule input_after)
  with f r fr show ?thesis by auto
qed

lemma csv_field_on_render:
  assumes "field_ok f" and "input mem p = render_field f @ rest"
    and "rest = [] \<or> \<not> bare_char (hd rest)"
    and "blank_field f \<longrightarrow> rest \<noteq> [] \<and> hd rest = CHR '',''"
  shows "\<exists>v p1. fp_parse_csv_field simd mem p = (Some v, p1) \<and> input mem p1 = rest \<and> frame p p1"
proof (cases f)
  case (Bare s)
  with assms show ?thesis by (intro csv_field_on_bare [of s]) simp_all
next
  case (Quoted b)
  with assms show ?thesis by (intro csv_field_on_quoted [of b]) simp_all
qed

lemma render_field_nonempty: "\<not> blank_field f \<Longrightarrow> render_field f \<noteq> []"
  by (cases f) auto

lemma fields_loop_on_render:
  assumes "fs \<noteq> []" and "\<forall>f \<in> set fs. field_ok f" and "\<not> blank_field (last fs)"
    and "count + length fs \<le> FP_CSV_MAX_FIELDS"
    and "input mem p = render_fields fs @ rest"
    and "rest = [] \<or> hd rest = CHR 0x0A \<or> hd rest = CHR 0x0D"
  shows "\<exists>vs p1. csv_fields_loop simd mem count acc p = (count + length fs, acc @ vs, p1)
           \<and> input mem p1 = rest \<and> frame p p1"
  using assms
proof (induction fs arbitrary: count acc p rule: list_nonempty_induct)
  case (single f)
  have nb: "\<not> blank_field f" using single.prems(2) by simp
  have inp: "input mem p = render_field f @ rest" using single.prems(4) by simp
  have "input mem p \<noteq> []" using inp render_field_nonempty [OF nb] by simp
  then have ne: "\<not> fp_at_end p" by (simp add: fp_at_end_input [of p mem])
  have cnt: "count < FP_CSV_MAX_FIELDS" using single.prems(3) by simp
  have nxt: "rest = [] \<or> \<not> bare_char (hd rest)"
    using single.prems(5) by (auto simp: quote_not_ws)
  from csv_field_on_render [OF _ inp nxt, of simd] single.prems(1) nb
  obtain v p1 where f: "fp_parse_csv_field simd mem p = (Some v, p1)"
    and i1: "input mem p1 = rest" and fr: "frame p p1"
    by auto
  have "case input mem p1 of [] \<Rightarrow> CHR '','' \<noteq> CHR 0x00 | d # cs \<Rightarrow> d \<noteq> CHR '',''"
    using single.prems(5) i1 by (auto split: list.splits)
  then have "fp_match_char mem p1 (CHR '','') = (False, p1)"
    by (rule fp_match_char_miss)
  with f have "csv_fields_loop simd mem count acc p = (count + 1, acc @ [v], p1)"
    by (simp add: fields_loop_unfold [OF ne cnt])
  with i1 fr show ?case by auto
next
  case (cons f fs)
  let ?rest' = "CHR '','' # render_fields fs @ rest"
  obtain g gs where fs: "fs = g # gs" using cons.hyps(1) by (cases fs) auto
  have inp: "input mem p = render_field f @ ?rest'" using cons.prems(4) fs by simp
  then have "input mem p \<noteq> []" by simp
  then have ne: "\<not> fp_at_end p" by (simp add: fp_at_end_input [of p mem])
  have cnt: "count < FP_CSV_MAX_FIELDS" using cons.prems(3) by simp
  from csv_field_on_render [OF _ inp, of simd] cons.prems(1)
  obtain v p1 where f: "fp_parse_csv_field simd mem p = (Some v, p1)"
    and i1: "input mem p1 = ?rest'" and fr: "frame p p1"
    by (auto simp: quote_not_ws)
  let ?p2 = "snd (fp_advance mem p1)"
  note m = fp_match_char_hit [OF i1]
  note a = fp_advance_input [OF i1]
  have step: "csv_fields_loop simd mem count acc p =
      csv_fields_loop simd mem (count + 1) (acc @ [v]) ?p2"
    using f m by (cases "fp_match_char mem p1 (CHR '','')")
      (simp add: fields_loop_unfold [OF ne cnt])
  have "\<exists>vs p3. csv_fields_loop simd mem (count + 1) (acc @ [v]) ?p2 =
          (count + 1 + length fs, (acc @ [v]) @ vs, p3) \<and> input mem p3 = rest \<and> frame ?p2 p3"
    using cons.prems cons.hyps(1) a(1) by (intro cons.IH) simp_all
  then obtain vs p3 where
    "csv_fields_loop simd mem (count + 1) (acc @ [v]) ?p2 = (count + 1 + length fs, acc @ (v # vs), p3)"
    "input mem p3 = rest" "frame ?p2 p3"
    by auto
  moreover have "frame p ?p2" using fr a(3) by (rule frame_trans)
  ultimately show ?case
    unfolding step by (auto intro: frame_trans)
qed


lemma csv_line_on_render:
  assumes ok: "row_ok fs"
    and inp: "input mem p = render_fields fs @ t @ rest"
    and t: "t = [CHR 0x0A] \<or> t = [CHR 0x0D, CHR 0x0A] \<or> (t = [] \<and> rest = [])"
  shows "\<exists>vs p'. fp_parse_csv_line simd mem p = (length fs, vs, p') \<and> input mem p' = rest"
proof -
  have nxt: "t @ rest = [] \<or> hd (t @ rest) = CHR 0x0A \<or> hd (t @ rest) = CHR 0x0D"
    using t by auto
  from fields_loop_on_render [of fs 0 mem p "t @ rest" simd "[]"] ok inp nxt
  obtain vs p1 where l: "csv_fields_loop simd mem 0 [] p = (length fs, vs, p1)"
    and i1: "input mem p1 = t @ rest"
    by (auto simp: row_ok_def)
  from t consider (nl) "t = [CHR 0x0A]" | (crnl) "t = [CHR 0x0D, CHR 0x0A]" | (none) "t = []" "rest = []"
    by blast
  then show ?thesis
  proof cases
    case nl
    then have i1': "input mem p1 = CHR 0x0A # rest" using i1 by simp
    then have "fp_match_char mem p1 (CHR 0x0D) = (False, p1)"
      by (intro fp_match_char_miss) simp
    moreover note fp_match_char_hit(2) [OF i1'] fp_advance_input(1) [OF i1']
    ultimately show ?thesis by (simp add: fp_parse_csv_line_def l)
  next
    case crnl
    then have i1': "input mem p1 = CHR 0x0D # CHR 0x0A # rest" using i1 by simp
    let ?p2 = "snd (fp_advance mem p1)"
    have i2: "input mem ?p2 = CHR 0x0A # rest" by (rule fp_advance_input(1) [OF i1'])
    have "fp_match_char mem p1 (CHR 0x0D) = (True, ?p2)"
      using fp_match_char_hit [OF i1'] by (cases "fp_match_char mem p1 (CHR 0x0D)") simp
    moreover note fp_match_char_hit(2) [OF i2] fp_advance_input(1) [OF i2]
    ultimately show ?thesis by (simp add: fp_parse_csv_line_def l)
  next
    case none
    then have i1': "input mem p1 = []" using i1 by simp
    then have "fp_match_char mem p1 (CHR 0x0D) = (False, p1)"
      and "fp_match_char mem p1 (CHR 0x0A) = (False, p1)"
      by (simp_all add: fp_match_char_miss)
    with i1' none show ?thesis by (simp add: fp_parse_csv_line_def l)
  qed
qed

lemma render_fields_nonempty: "row_ok fs \<Longrightarrow> render_fields fs \<noteq> []"
proof (induction fs rule: render_fields.induct)
  case 1
  then show ?case by (simp add: row_ok_def)
next
  case (2 f)
  then show ?case by (simp add: row_ok_def render_field_nonempty)
next
  case (3 f g fs)
  show ?case by simp
qed

lemma csv_rows_on_render:
  assumes "csv_ok rows" and "input mem p = render_csv rows"
  shows "csv_rows simd mem p = map (\<lambda>r. length (fst r)) rows"
  using assms
proof (induction rows arbitrary: p rule: csv_ok.induct)
  case 1
  then have "fp_at_end p" by (simp add: fp_at_end_input [of p mem])
  then show ?case by (subst csv_rows.simps) simp
next
  case (2 fs t)
  then have ok: "row_ok fs" and t: "t = [CHR 0x0A] \<or> t = [CHR 0x0D, CHR 0x0A] \<or> (t = [] \<and> ([]::string) = [])"
    and inp: "input mem p = render_fields fs @ t @ []"
    by auto
  have "input mem p \<noteq> []" using inp render_fields_nonempty [OF ok] by simp
  then have ne: "\<not> fp_at_end p" by (simp add: fp_at_end_input [of p mem])
  from csv_line_on_render [OF ok inp t, of simd] obtain vs p' where
    l: "fp_parse_csv_line simd mem p = (length fs, vs, p')" and i': "input mem p' = []"
    by blast
  then have "fp_at_end p'" by (simp add: fp_at_end_input [of p' mem])
  then have "csv_rows simd mem p' = []" by (subst csv_rows.simps) simp
  with ne l show ?case by (subst csv_rows.simps) simp
next
  case (3 fs t r rs)
  then have ok: "row_ok fs"
    and t: "t = [CHR 0x0A] \<or> t = [CHR 0x0D, CHR 0x0A] \<or> (t = [] \<and> render_csv (r # rs) = [])"
    and rest_ok: "csv_ok (r # rs)"
    and inp: "input mem p = render_fields fs @ t @ render_csv (r # rs)"
    by auto
  have "input mem p \<noteq> []" using inp render_fields_nonempty [OF ok] by simp
  then have ne: "\<not> fp_at_end p" by (simp add: fp_at_end_input [of p mem])
  from csv_line_on_render [OF ok inp t, of simd] obtain vs p' where
    l: "fp_parse_csv_line simd mem p = (length fs, vs, p')"
    and i': "input mem p' = render_csv (r # rs)"
    by blast
  have "csv_rows simd mem p' = map (\<lambda>r. length (fst r)) (r # rs)"
    using rest_ok i' by (rule "3.IH")
  with ne l show ?case by (subst csv_rows.simps) simp
qed


lemma ref_plain:
  "\<forall>c \<in> set s. c \<noteq> CHR 0x22 \<and> c \<noteq> CHR 0x0A \<Longrightarrow>
   ref_row_count False opn (s @ rest) = ref_row_count False (opn \<or> s \<noteq> []) rest"
  by (induction s arbitrary: opn) simp_all

lemma ref_quoted_body:
  "scan_quoted (b @ [CHR 0x22]) = length b \<Longrightarrow>
   ref_row_count True opn (b @ CHR 0x22 # rest) = ref_row_count False True rest"
proof (induction b arbitrary: opn rule: scan_quoted.induct)
  case 1
  show ?case by simp
next
  case (2 c cs)
  show ?case
  proof (cases "c = CHR 0x22")
    case True
    with 2(3) show ?thesis by simp
  next
    case False
    note nq = this
    show ?thesis
    proof (cases "c = CHR 0x5C")
      case True
      show ?thesis
      proof (cases cs)
        case Nil
        with 2(3) True show ?thesis by simp
      next
        case (Cons d ds)
        with 2(3) nq True have "scan_quoted (ds @ [CHR 0x22]) = length ds" by simp
        then have "ref_row_count True True (ds @ CHR 0x22 # rest) = ref_row_count False True rest"
          by (rule 2(1) [OF nq True Cons])
        with nq True Cons show ?thesis by simp
      qed
    next
      case False
      with 2(3) nq have "scan_quoted (cs @ [CHR 0x22]) = length cs" by simp
      then have "ref_row_count True True (cs @ CHR 0x22 # rest) = ref_row_count False True rest"
        by (rule 2(2) [OF nq False])
      with nq False show ?thesis by simp
    qed
  qed
qed

lemma ref_field:
  assumes "field_ok f"
  shows "ref_row_count False opn (render_field f @ rest) =
         ref_row_count False (opn \<or> render_field f \<noteq> []) rest"
proof (cases f)
  case (Bare s)
  with assms have "\<forall>c \<in> set s. c \<noteq> CHR 0x22 \<and> c \<noteq> CHR 0x0A"
    by (auto simp: bare_char_def)
  then show ?thesis using Bare by (simp add: ref_plain)
next
  case (Quoted b)
  with assms show ?thesis by (simp add: ref_quoted_body)
qed

lemma ref_fields:
  "\<forall>f \<in> set fs. field_ok f \<Longrightarrow>
   ref_row_count False opn (render_fields fs @ rest) =
   ref_row_count False (opn \<or> render_fields fs \<noteq> []) rest"
proof (induction fs arbitrary: opn rule: render_fields.induct)
  case 1
  show ?case by simp
next
  case (2 f)
  then show ?case by (simp add: ref_field)
next
  case (3 f g fs)
  then have f: "field_ok f" and rest_ok: "\<forall>f \<in> set (g # fs). field_ok f" by simp_all
  have "ref_row_count False opn (render_fields (f # g # fs) @ rest) =
        ref_row_count False opn (render_field f @ (CHR '','' # render_fields (g # fs) @ rest))"
    by simp
  also have "\<dots> = ref_row_count False True (render_fields (g # fs) @ rest)"
    by (simp add: ref_field [OF f])
  also have "\<dots> = ref_row_count False True rest"
    using "3.IH" [OF rest_ok, of True] by simp
  finally show ?case by simp
qed

lemma ref_row:
  assumes "row_ok fs"
    and "t = [CHR 0x0A] \<or> t = [CHR 0x0D, CHR 0x0A] \<or> (t = [] \<and> rest = [])"
  shows "ref_row_count False False (render_fields fs @ t @ rest) = 1 + ref_row_count False False rest"
proof -
  have "ref_row_count False False (render_fields fs @ (t @ rest)) = ref_row_count False True (t @ rest)"
    using assms(1) render_fields_nonempty [OF assms(1)] by (simp add: ref_fields row_ok_def)
  moreover have "ref_row_count False True (t @ rest) = 1 + ref_row_count False False rest"
    using assms(2) by auto
  ultimately show ?thesis by simp
qed

lemma ref_rows_on_render: "csv_ok rows \<Longrightarrow> ref_rows (render_csv rows) = length rows"
  unfolding ref_rows_def
proof (induction rows rule: csv_ok.induct)
  case 1
  show ?case by simp
next
  case (2 fs t)
  then show ?case using ref_row [of fs t "[]"] by auto
next
  case (3 fs t r rs)
  then show ?case using ref_row [of fs t "render_csv (r # rs)"] by auto
qed

text \<open>
  Claim C6, amended: for every CSV text of the form above, calling \<open>fp_parse_csv_line\<close>
  until \<open>fp_at_end\<close> makes one call per row, each returning the number of fields of its
  row, and the number of calls is the number of rows of the reference split.
\<close>

theorem csv_rows_match_reference:
  assumes "csv_ok rows" and "input mem p = render_csv rows"
  shows "csv_rows simd mem p = map (\<lambda>r. length (fst r)) rows \<and>
         length (csv_rows simd mem p) = ref_rows (input mem p)"
  using assms by (simp add: csv_rows_on_render ref_rows_on_render)


lemmas csv_eval = csv_rows.simps fp_parse_csv_line_def csv_fields_loop.simps fp_parse_csv_field_def
  fp_parse_quoted_string_def quoted_loop.simps bare_loop.simps trim_loop.simps fp_match_char_def
  fp_skip_ws_def fp_skip_whitespace_def fp_skip_whitespace_simd_def simd_loop.simps
  scalar_loop.simps track_loop.simps fp_advance_def fp_peek_def fp_at_end_def fp_init_def
  rd_def is_ws_def FP_CSV_MAX_FIELDS_def Let_def

text \<open>
  Claim C6, as stated: on every valid CSV input the repeated calls yield as many rows as the
  reference split. An empty line, or an empty last field, is swallowed by the whitespace
  skip of the next field: the bytes \<open>a LF LF b LF\<close> are three lines and are read in two
  calls of one field each; the bytes \<open>a , LF b LF\<close> are two lines and are read in one call
  of two fields.
\<close>

theorem csv_rows_blank_line_counterexample:
  "csv_rows True [CHR ''a'', CHR 0x0A, CHR 0x0A, CHR ''b'', CHR 0x0A] (fp_init 0 5) = [1, 1] \<and>
   ref_rows [CHR ''a'', CHR 0x0A, CHR 0x0A, CHR ''b'', CHR 0x0A] = 3 \<and>
   length (csv_rows True [CHR ''a'', CHR 0x0A, CHR 0x0A, CHR ''b'', CHR 0x0A] (fp_init 0 5)) \<noteq>
     ref_rows [CHR ''a'', CHR 0x0A, CHR 0x0A, CHR ''b'', CHR 0x0A] \<and>
   csv_rows True [CHR ''a'', CHR '','', CHR 0x0A, CHR ''b'', CHR 0x0A] (fp_init 0 5) = [2] \<and>
   ref_rows [CHR ''a'', CHR '','', CHR 0x0A, CHR ''b'', CHR 0x0A] = 2 \<and>
   length (csv_rows True [CHR ''a'', CHR '','', CHR 0x0A, CHR ''b'', CHR 0x0A] (fp_init 0 5)) \<noteq>
     ref_rows [CHR ''a'', CHR '','', CHR 0x0A, CHR ''b'', CHR 0x0A]"
proof -
  have a: "csv_rows True [CHR ''a'', CHR 0x0A, CHR 0x0A, CHR ''b'', CHR 0x0A] (fp_init 0 5) = [1, 1]"
    by (simp add: csv_eval)
  have b: "ref_rows [CHR ''a'', CHR 0x0A, CHR 0x0A, CHR ''b'', CHR 0x0A] = 3"
    by (simp add: ref_rows_def)
  have c: "csv_rows True [CHR ''a'', CHR '','', CHR 0x0A, CHR ''b'', CHR 0x0A] (fp_init 0 5) = [2]"
    by (simp add: csv_eval)
  have d: "ref_rows [CHR ''a'', CHR '','', CHR 0x0A, CHR ''b'', CHR 0x0A] = 2"
    by (simp add: ref_rows_def)
  show ?thesis unfolding a b c d by simp
qed


theorem csv_rows_match_reference_witness:
  "csv_ok [([Bare ''a'', Quoted ''b,c''], [CHR 0x0A]), ([Bare ''d''], [])] \<and>
   input [CHR ''a'', CHR '','', CHR 0x22, CHR ''b'', CHR '','', CHR ''c'', CHR 0x22, CHR 0x0A, CHR ''d'']
     (fp_init 0 9) = render_csv [([Bare ''a'', Quoted ''b,c''], [CHR 0x0A]), ([Bare ''d''], [])] \<and>
   csv_rows True
     [CHR ''a'', CHR '','', CHR 0x22, CHR ''b'', CHR '','', CHR ''c'', CHR 0x22, CHR 0x0A, CHR ''d'']
     (fp_init 0 9) = [2, 1] \<and>
   ref_rows (input
     [CHR ''a'', CHR '','', CHR 0x22, CHR ''b'', CHR '','', CHR ''c'', CHR 0x22, CHR 0x0A, CHR ''d'']
     (fp_init 0 9)) = 2"
proof -
  have ok: "csv_ok [([Bare ''a'', Quoted ''b,c''], [CHR 0x0A]), ([Bare ''d''], [])]"
    by (simp add: row_ok_def FP_CSV_MAX_FIELDS_def bare_char_def is_ws_def)
  have inp: "input
     [CHR ''a'', CHR '','', CHR 0x22, CHR ''b'', CHR '','', CHR ''c'', CHR 0x22, CHR 0x0A, CHR ''d'']
     (fp_init 0 9) = render_csv [([Bare ''a'', Quoted ''b,c''], [CHR 0x0A]), ([Bare ''d''], [])]"
    by (simp add: input_def bytes_def fp_init_def rd_def upt_rec)
  note r = csv_rows_match_reference [OF ok inp, of True]
  have c: "csv_rows True
     [CHR ''a'', CHR '','', CHR 0x22, CHR ''b'', CHR '','', CHR ''c'', CHR 0x22, CHR 0x0A, CHR ''d'']
     (fp_init 0 9) = [2, 1]"
    using r [THEN conjunct1] by simp
  have l: "length (csv_rows True
     [CHR ''a'', CHR '','', CHR 0x22, CHR ''b'', CHR '','', CHR ''c'', CHR 0x22, CHR 0x0A, CHR ''d'']
     (fp_init 0 9)) = ref_rows (input
     [CHR ''a'', CHR '','', CHR 0x22, CHR ''b'', CHR '','', CHR ''c'', CHR 0x22, CHR 0x0A, CHR ''d'']
     (fp_init 0 9))"
    by (rule r [THEN conjunct2])
  have "ref_rows (input
     [CHR ''a'', CHR '','', CHR 0x22, CHR ''b'', CHR '','', CHR ''c'', CHR 0x22, CHR 0x0A, CHR ''d'']
     (fp_init 0 9)) = 2"
    unfolding l [symmetric] c by simp
  with ok inp c show ?thesis by blast
qed

end
